theory Spec2Isabelle
  imports Main
begin

section \<open>Go strings: bytes, prefixes, splitting, replacing, trimming\<close>

text \<open>
  A Go string is a sequence of bytes and \<open>len\<close> counts bytes; an Isabelle \<open>string\<close> is a
  list of 8-bit characters, so the two agree. The functions below follow the Go standard
  library (packages \<open>strings\<close> and \<open>strconv\<close>) as \<open>main.go\<close> calls them.
\<close>

abbreviation LF :: char where
  "LF \<equiv> CHR 0x0A"

definition strings_HasPrefix :: "string \<Rightarrow> string \<Rightarrow> bool" where
  "strings_HasPrefix s p \<longleftrightarrow> take (length p) s = p"

definition strings_TrimPrefix :: "string \<Rightarrow> string \<Rightarrow> string" where
  "strings_TrimPrefix s p = (if strings_HasPrefix s p then drop (length p) s else s)"

fun strings_Contains :: "string \<Rightarrow> string \<Rightarrow> bool" where
  "strings_Contains [] sub = (sub = [])"
| "strings_Contains (x # xs) sub =
     (strings_HasPrefix (x # xs) sub \<or> strings_Contains xs sub)"

text \<open>
  \<open>strings.ReplaceAll(s, old, new)\<close>: Go returns \<open>s\<close> itself when \<open>old == new\<close>;
  otherwise it scans from the left and replaces non-overlapping occurrences. The source
  only passes a non-empty \<open>old\<close>; for an empty one the scan below copies \<open>s\<close>.
\<close>

function replace_scan :: "string \<Rightarrow> string \<Rightarrow> string \<Rightarrow> string" where
  "replace_scan [] old new = []"
| "replace_scan (x # xs) old new =
     (if old \<noteq> [] \<and> strings_HasPrefix (x # xs) old
      then new @ replace_scan (drop (length old) (x # xs)) old new
      else x # replace_scan xs old new)"
  by pat_completeness auto
termination
  by (relation "measure (\<lambda>(s, old, new). length s)") auto

definition strings_ReplaceAll :: "string \<Rightarrow> string \<Rightarrow> string \<Rightarrow> string" where
  "strings_ReplaceAll s old new = (if old = new then s else replace_scan s old new)"

text \<open>
  \<open>strings.Split(s, sep)\<close> for a non-empty separator: the fields between the
  non-overlapping occurrences of \<open>sep\<close>, found from the left; \<open>cur\<close> is the field being
  read. There is always at least one field.
\<close>

function split_scan :: "string \<Rightarrow> string \<Rightarrow> string \<Rightarrow> string list" where
  "split_scan cur [] sep = [cur]"
| "split_scan cur (x # xs) sep =
     (if sep \<noteq> [] \<and> strings_HasPrefix (x # xs) sep
      then cur # split_scan [] (drop (length sep) (x # xs)) sep
      else split_scan (cur @ [x]) xs sep)"
  by pat_completeness auto
termination
  by (relation "measure (\<lambda>(cur, s, sep). length s)") auto

definition strings_Split :: "string \<Rightarrow> string \<Rightarrow> string list" where
  "strings_Split s sep = split_scan [] s sep"

fun strings_Join :: "string list \<Rightarrow> string \<Rightarrow> string" where
  "strings_Join [] sep = []"
| "strings_Join [x] sep = x"
| "strings_Join (x # y # ys) sep = x @ sep @ strings_Join (y # ys) sep"

text \<open>
  \<open>strings.TrimSpace\<close> removes leading and trailing white space as Unicode defines it,
  reading the string as UTF-8. The white-space code points are U+0009..U+000D, U+0020,
  U+0085, U+00A0, U+1680, U+2000..U+200A, U+2028, U+2029, U+202F, U+205F and U+3000; the
  list holds their UTF-8 encodings. A byte sequence that is not valid UTF-8 decodes to the
  replacement character, which is not white space, so trimming stops there.
\<close>

definition space_encodings :: "string list" where
  "space_encodings =
     [[CHR 0x09], [CHR 0x0A], [CHR 0x0B], [CHR 0x0C], [CHR 0x0D], [CHR 0x20],
      [CHR 0xC2, CHR 0x85], [CHR 0xC2, CHR 0xA0],
      [CHR 0xE1, CHR 0x9A, CHR 0x80],
      [CHR 0xE2, CHR 0x80, CHR 0x80], [CHR 0xE2, CHR 0x80, CHR 0x81],
      [CHR 0xE2, CHR 0x80, CHR 0x82], [CHR 0xE2, CHR 0x80, CHR 0x83],
      [CHR 0xE2, CHR 0x80, CHR 0x84], [CHR 0xE2, CHR 0x80, CHR 0x85],
      [CHR 0xE2, CHR 0x80, CHR 0x86], [CHR 0xE2, CHR 0x80, CHR 0x87],
      [CHR 0xE2, CHR 0x80, CHR 0x88], [CHR 0xE2, CHR 0x80, CHR 0x89],
      [CHR 0xE2, CHR 0x80, CHR 0x8A],
      [CHR 0xE2, CHR 0x80, CHR 0xA8], [CHR 0xE2, CHR 0x80, CHR 0xA9],
      [CHR 0xE2, CHR 0x80, CHR 0xAF],
      [CHR 0xE2, CHR 0x81, CHR 0x9F],
      [CHR 0xE3, CHR 0x80, CHR 0x80]]"

text \<open>The width in bytes of the white-space rune a string starts with; 0 when none.\<close>

definition leading_space :: "string list \<Rightarrow> string \<Rightarrow> nat" where
  "leading_space encs s =
     (case filter (\<lambda>e. e \<noteq> [] \<and> strings_HasPrefix s e) encs of
        [] \<Rightarrow> 0
      | e # _ \<Rightarrow> length e)"

function trim_left :: "string list \<Rightarrow> string \<Rightarrow> string" where
  "trim_left encs s =
     (if leading_space encs s = 0 then s
      else trim_left encs (drop (leading_space encs s) s))"
  by pat_completeness auto

lemma HasPrefix_length: "strings_HasPrefix s p \<Longrightarrow> length p \<le> length s"
proof -
  assume "strings_HasPrefix s p"
  then have "length (take (length p) s) = length p"
    by (simp add: strings_HasPrefix_def)
  then show ?thesis by simp
qed

lemma leading_space_le: "leading_space encs s \<le> length s"
proof (cases "filter (\<lambda>e. e \<noteq> [] \<and> strings_HasPrefix s e) encs")
  case Nil
  then show ?thesis by (simp add: leading_space_def)
next
  case (Cons e es)
  then have "e \<in> set (filter (\<lambda>e. e \<noteq> [] \<and> strings_HasPrefix s e) encs)"
    by simp
  then have "strings_HasPrefix s e" by simp
  then have "length e \<le> length s" by (rule HasPrefix_length)
  with Cons show ?thesis by (simp add: leading_space_def)
qed

termination trim_left
proof (relation "measure (\<lambda>(encs, s). length s)")
  show "wf (measure (\<lambda>(encs, s). length s))" by simp
next
  fix encs :: "string list" and s :: string
  assume "leading_space encs s \<noteq> 0"
  moreover have "leading_space encs s \<le> length s" by (rule leading_space_le)
  ultimately show "((encs, drop (leading_space encs s) s), (encs, s))
                     \<in> measure (\<lambda>(encs, s). length s)"
    by simp
qed

declare trim_left.simps [simp del]

text \<open>
  Trailing white space is found by decoding the last rune, which succeeds exactly when
  the string ends with one of the encodings: trimming on the right is trimming the
  reversed string on the left, with the encodings reversed.
\<close>

definition trim_right :: "string list \<Rightarrow> string \<Rightarrow> string" where
  "trim_right encs s = rev (trim_left (map rev encs) (rev s))"

definition strings_TrimSpace :: "string \<Rightarrow> string" where
  "strings_TrimSpace s = trim_right space_encodings (trim_left space_encodings s)"

lemma replace_scan_hit:
  "old \<noteq> [] \<Longrightarrow> strings_HasPrefix (x # xs) old \<Longrightarrow>
   replace_scan (x # xs) old new = new @ replace_scan (drop (length old) (x # xs)) old new"
  by simp

lemma replace_scan_miss:
  "\<not> (old \<noteq> [] \<and> strings_HasPrefix (x # xs) old) \<Longrightarrow>
   replace_scan (x # xs) old new = x # replace_scan xs old new"
  by (simp only: replace_scan.simps if_False)

declare replace_scan.simps(2) [simp del]

lemma replace_scan_length_le:
  "length new \<le> length old \<Longrightarrow> length (replace_scan s old new) \<le> length s"
proof (induction s old new rule: replace_scan.induct)
  case (1 old new)
  then show ?case by simp
next
  case (2 x xs old new)
  show ?case
  proof (cases "old \<noteq> [] \<and> strings_HasPrefix (x # xs) old")
    case True
    then have hp: "strings_HasPrefix (x # xs) old" and ne: "old \<noteq> []" by simp_all
    from hp have le: "length old \<le> length (x # xs)" by (rule HasPrefix_length)
    have "length (replace_scan (drop (length old) (x # xs)) old new)
                        \<le> length (x # xs) - length old"
      using 2(1) [OF True 2(3)] by simp
    with le 2(3) show ?thesis by (simp add: replace_scan_hit [OF ne hp])
  next
    case False
    from 2(2) [OF False 2(3)] show ?thesis by (simp add: replace_scan_miss [OF False])
  qed
qed

lemma replace_scan_length_less:
  "length new < length old \<Longrightarrow> strings_Contains s old
     \<Longrightarrow> length (replace_scan s old new) < length s"
proof (induction s old new rule: replace_scan.induct)
  case (1 old new)
  then show ?case by simp
next
  case (2 x xs old new)
  show ?case
  proof (cases "old \<noteq> [] \<and> strings_HasPrefix (x # xs) old")
    case True
    then have hp: "strings_HasPrefix (x # xs) old" and ne: "old \<noteq> []" by simp_all
    from hp have le: "length old \<le> length (x # xs)" by (rule HasPrefix_length)
    have "length (replace_scan (drop (length old) (x # xs)) old new)
            \<le> length (x # xs) - length old"
      using replace_scan_length_le [of new old "drop (length old) (x # xs)"] 2(3) by simp
    with le 2(3) show ?thesis by (simp add: replace_scan_hit [OF ne hp])
  next
    case False
    from 2(3) have "old \<noteq> []" by auto
    with False have "\<not> strings_HasPrefix (x # xs) old" by simp
    with 2(4) have "strings_Contains xs old" by simp
    from 2(2) [OF False 2(3) this] show ?thesis by (simp add: replace_scan_miss [OF False])
  qed
qed

section \<open>Numbers: \<open>strconv.Atoi\<close> and the \<open>%d\<close> verb\<close>

text \<open>
  \<open>strconv.Atoi\<close> accepts an optional sign followed by one or more decimal digits and
  nothing else, and fails when the value does not fit an \<open>int\<close>, which has 64 bits on
  the platforms the program downloads a browser for. \<open>None\<close> is the error return.
\<close>

definition is_digit :: "char \<Rightarrow> bool" where
  "is_digit c \<longleftrightarrow> (48::nat) \<le> of_char c \<and> of_char c \<le> (57::nat)"

fun digits_value :: "nat \<Rightarrow> string \<Rightarrow> nat" where
  "digits_value n [] = n"
| "digits_value n (ch # cs) = digits_value (n * 10 + (of_char ch - 48)) cs"

definition strconv_Atoi :: "string \<Rightarrow> int option" where
  "strconv_Atoi s =
     (let neg = (s \<noteq> [] \<and> hd s = CHR ''-'');
          ds = (if s \<noteq> [] \<and> (hd s = CHR ''-'' \<or> hd s = CHR ''+'') then tl s else s)
      in if ds = [] \<or> \<not> list_all is_digit ds then None
         else let n = (if neg then - int (digits_value 0 ds) else int (digits_value 0 ds))
              in if n < - (2 ^ 63) \<or> 2 ^ 63 - 1 < n then None else Some n)"

text \<open>\<open>fmt.Sprintf("%d", n)\<close>: the decimal digits, with a minus sign for a negative number.\<close>

function nat_digits :: "nat \<Rightarrow> string" where
  "nat_digits n =
     (if n < 10 then [char_of (48 + n)]
      else nat_digits (n div 10) @ [char_of (48 + n mod 10)])"
  by pat_completeness auto
termination
  by (relation "measure id") auto

declare nat_digits.simps [simp del]

definition fmt_d :: "int \<Rightarrow> string" where
  "fmt_d n = (if n < 0 then CHR ''-'' # nat_digits (nat (- n)) else nat_digits (nat n))"

section \<open>URL normalisation, window size and markdown cleanup\<close>

definition ensureProtocol :: "string \<Rightarrow> string" where
  "ensureProtocol url =
     (if \<not> strings_HasPrefix url ''http://'' \<and> \<not> strings_HasPrefix url ''https://''
      then ''http://'' @ url
      else url)"

definition parseWindowSize :: "string \<Rightarrow> int \<times> int" where
  "parseWindowSize sz =
     (let parts = strings_Split sz ''x'' in
      if length parts \<noteq> 2 then (1280, 720)
      else (case (strconv_Atoi (parts ! 0), strconv_Atoi (parts ! 1)) of
              (Some width, Some height) \<Rightarrow> (width, height)
            | _ \<Rightarrow> (1280, 720)))"

text \<open>The loop \<open>for strings.Contains(markdown, "\n\n\n") { ... }\<close> of \<open>cleanMarkdown\<close>.\<close>

function collapse_blank_lines :: "string \<Rightarrow> string" where
  "collapse_blank_lines s =
     (if strings_Contains s [LF, LF, LF]
      then collapse_blank_lines (strings_ReplaceAll s [LF, LF, LF] [LF, LF])
      else s)"
  by pat_completeness auto
termination
proof (relation "measure length")
  show "wf (measure length)" by simp
next
  fix s :: string
  assume "strings_Contains s [LF, LF, LF]"
  then have "length (replace_scan s [LF, LF, LF] [LF, LF]) < length s"
    by (intro replace_scan_length_less) simp_all
  then show "(strings_ReplaceAll s [LF, LF, LF] [LF, LF], s) \<in> measure length"
    by (simp add: strings_ReplaceAll_def)
qed

declare collapse_blank_lines.simps [simp del]

text \<open>The body of the loop over the lines: what becomes of one line.\<close>

definition normalize_bullet :: "string \<Rightarrow> string" where
  "normalize_bullet line =
     (if strings_HasPrefix line ''* '' \<or> strings_HasPrefix line ''- ''
      then ''- '' @ strings_TrimPrefix (strings_TrimPrefix line ''* '') ''- ''
      else line)"

text \<open>
  \<open>cleanMarkdown\<close> up to \<open>strings.Join(lines, "\n")\<close>: the text that the final
  \<open>strings.TrimSpace\<close> receives.
\<close>

definition joined_lines :: "string \<Rightarrow> string" where
  "joined_lines markdown =
     (let markdown = strings_ReplaceAll markdown (LF # ''# '') (LF # ''# '');
          markdown = strings_ReplaceAll markdown (LF # ''## '') (LF # ''## '');
          markdown = strings_ReplaceAll markdown (LF # ''### '') (LF # ''### '');
          markdown = collapse_blank_lines markdown;
          lines = strings_Split markdown [LF];
          lines = map normalize_bullet lines
      in strings_Join lines [LF])"

definition cleanMarkdown :: "string \<Rightarrow> string" where
  "cleanMarkdown markdown = strings_TrimSpace (joined_lines markdown)"

section \<open>The request configuration and the argument parser\<close>

record FormInput =
  Name :: string
  Value :: string

record Config =
  URL :: string
  Profile :: string
  FormID :: string
  Inputs :: "FormInput list"
  AfterSubmitURL :: string
  JSCode :: string
  ScreenshotPath :: string
  TruncateAfter :: int
  RawFlag :: bool
  Headful :: bool
  WindowSize :: string
  Session :: string
  StopSession :: bool
  Stealth :: bool

abbreviation DEFAULT_TRUNCATE_AFTER :: int where
  "DEFAULT_TRUNCATE_AFTER \<equiv> 100000"

text \<open>
  \<open>parseArgs\<close> either returns a configuration or, at \<open>--help\<close> and \<open>--quickstart\<close>,
  prints the text and leaves the program with status 0.
\<close>

datatype parse_outcome = HelpExit | QuickstartExit | Parsed Config

text \<open>
  The loop \<open>for i := 0; i < len(args); i++\<close> reads \<open>args[i]\<close> and, for a flag that takes
  a value, \<open>args[i+1]\<close> when \<open>i+1 < len(args)\<close>. \<open>parse_step\<close> is the body of the loop, the
  \<open>switch\<close>, at \<open>arg = args[i]\<close> with \<open>rest\<close> the tokens after it: it gives the
  configuration after the body and the tokens from the next \<open>i\<close> on, or leaves the
  program.
\<close>

datatype loop_step = StopHelp | StopQuickstart | Next Config "string list"

definition parse_step :: "Config \<Rightarrow> string \<Rightarrow> string list \<Rightarrow> loop_step" where
  "parse_step config arg rest =
    (if arg = ''--help'' then StopHelp
     else if arg = ''--quickstart'' then StopQuickstart
     else if arg = ''--raw'' then Next (config\<lparr>RawFlag := True\<rparr>) rest
     else if arg = ''--truncate-after'' then
       (case rest of
          [] \<Rightarrow> Next config []
        | v # rest1 \<Rightarrow>
            Next
              (case strconv_Atoi v of
                 Some val \<Rightarrow> if val > 0 then config\<lparr>TruncateAfter := val\<rparr> else config
               | None \<Rightarrow> config)
              rest1)
     else if arg = ''--screenshot'' then
       (case rest of
          [] \<Rightarrow> Next config []
        | v # rest1 \<Rightarrow> Next (config\<lparr>ScreenshotPath := v\<rparr>) rest1)
     else if arg = ''--form'' then
       (case rest of
          [] \<Rightarrow> Next config []
        | v # rest1 \<Rightarrow> Next (config\<lparr>FormID := v\<rparr>) rest1)
     else if arg = ''--input'' then
       (case rest of
          [] \<Rightarrow> Next config []
        | name # rest1 \<Rightarrow>
            (case rest1 of
               [] \<Rightarrow> Next config []
             | next_arg # rest2 \<Rightarrow>
                 if next_arg = ''--value'' then
                   (case rest2 of
                      [] \<Rightarrow> Next config []
                    | v # rest3 \<Rightarrow>
                        Next
                          (config\<lparr>Inputs := Inputs config @ [\<lparr>Name = name, Value = v\<rparr>]\<rparr>)
                          rest3)
                 else Next config rest1))
     else if arg = ''--value'' then Next config rest
     else if arg = ''--after-submit'' then
       (case rest of
          [] \<Rightarrow> Next config []
        | v # rest1 \<Rightarrow> Next (config\<lparr>AfterSubmitURL := ensureProtocol v\<rparr>) rest1)
     else if arg = ''--js'' then
       (case rest of
          [] \<Rightarrow> Next config []
        | v # rest1 \<Rightarrow> Next (config\<lparr>JSCode := v\<rparr>) rest1)
     else if arg = ''--profile'' then
       (case rest of
          [] \<Rightarrow> Next config []
        | v # rest1 \<Rightarrow> Next (config\<lparr>Profile := v\<rparr>) rest1)
     else if arg = ''--headful'' then Next (config\<lparr>Headful := True\<rparr>) rest
     else if arg = ''--window-size'' then
       (case rest of
          [] \<Rightarrow> Next config []
        | v # rest1 \<Rightarrow> Next (config\<lparr>WindowSize := v\<rparr>) rest1)
     else if arg = ''--session'' then
       (case rest of
          [] \<Rightarrow> Next config []
        | v # rest1 \<Rightarrow> Next (config\<lparr>Session := v\<rparr>) rest1)
     else if arg = ''--stop'' then Next (config\<lparr>StopSession := True\<rparr>) rest
     else if arg = ''--stealth'' then Next (config\<lparr>Stealth := True\<rparr>) rest
     else if URL config = [] \<and> \<not> strings_HasPrefix arg ''--''
       then Next (config\<lparr>URL := arg\<rparr>) rest
     else Next config rest)"

lemma parse_step_rest:
  "parse_step config arg rest = Next config' rest' \<Longrightarrow>
   rest' = rest \<or> rest' = drop 1 rest \<or> rest' = drop 3 rest"
  by (auto simp: parse_step_def split: if_splits list.splits)

function parse_loop :: "Config \<Rightarrow> string list \<Rightarrow> parse_outcome" where
  "parse_loop config [] = Parsed config"
| "parse_loop config (arg # rest) =
     (case parse_step config arg rest of
        StopHelp \<Rightarrow> HelpExit
      | StopQuickstart \<Rightarrow> QuickstartExit
      | Next config' rest' \<Rightarrow> parse_loop config' rest')"
  by pat_completeness auto
termination
proof (relation "measure (\<lambda>(config, args). length args)")
  show "wf (measure (\<lambda>(config, args). length args))" by simp
next
  fix config arg rest config' rest'
  assume "parse_step config arg rest = Next config' rest'"
  then have "length rest' \<le> length rest"
    using parse_step_rest [of config arg rest config' rest'] by auto
  then show "((config', rest'), (config, arg # rest))
               \<in> measure (\<lambda>(config, args). length args)"
    by simp
qed

definition initial_config :: Config where
  "initial_config =
     \<lparr>URL = [], Profile = ''default'', FormID = [], Inputs = [], AfterSubmitURL = [],
      JSCode = [], ScreenshotPath = [], TruncateAfter = DEFAULT_TRUNCATE_AFTER,
      RawFlag = False, Headful = False, WindowSize = [], Session = [],
      StopSession = False, Stealth = False\<rparr>"

text \<open>\<open>args\<close> is \<open>os.Args[1:]\<close>, the tokens after the program's name.\<close>

definition parseArgs :: "string list \<Rightarrow> parse_outcome" where
  "parseArgs args = parse_loop initial_config args"

section \<open>The outside world: browser, files, processes\<close>

text \<open>
  Everything the program asks of the outside world (the browser behind \<open>chromedp\<close>, the
  session files, the \<open>html2text\<close> library, the clock) is an \<open>action\<close>; the world answers
  with a \<open>reply\<close> and moves to a new state. The world is a parameter of the model: a
  \<open>driver\<close> is any function from an action and a world state to a reply and the next
  state. A run records, in order, the actions performed and the lines written.
\<close>

record SessionInfo =
  WSURL :: string
  SessionProfile :: string
  SessionHeadful :: bool
  PID :: int
  TargetID :: string

text \<open>
  The actions, with what they stand for in \<open>main.go\<close>:
  \<^item> \<open>LoadSession id\<close>, \<open>SaveSession id info\<close>, \<open>RemoveSession id\<close>: \<open>loadSession\<close>,
    \<open>saveSession\<close> and \<open>removeSession\<close> on the file of the session; loading replies the
    record (\<open>Info\<close>) or fails.
  \<^item> \<open>KillProcess pid\<close>: the interrupt signal, the pause and the kill in \<open>stopSession\<close>.
  \<^item> \<open>EnsureChromium\<close>: \<open>ensureChromium()\<close> as a whole.
  \<^item> \<open>StartSessionBrowser config\<close>: \<open>startSessionBrowser(config)\<close>; replies the record of
    the new browser or fails.
  \<^item> \<open>RemoteContext wsurl target\<close>: \<open>NewRemoteAllocator\<close> and \<open>NewContext\<close>, attached to the
    tab \<open>target\<close> when it is not empty.
  \<^item> \<open>InitContext\<close>: \<open>chromedp.Run(ctx)\<close> without actions, which creates the tab; replies
    its target id (\<open>Text\<close>).
  \<^item> \<open>ExecContext profile headless stealth window\<close>: the one-shot branch up to
    \<open>NewContext\<close> (profile directory, allocator options, \<open>NewExecAllocator\<close>).
  \<^item> \<open>AddStealthScript\<close>: the script added before navigation when \<open>--stealth\<close> is set.
  \<^item> \<open>Navigate\<close>, \<open>WaitReady\<close>, \<open>WaitVisible\<close>, \<open>Evaluate\<close>, \<open>Location\<close>, \<open>Clear\<close>,
    \<open>SendKeys\<close>, \<open>Click\<close>, \<open>FullScreenshot\<close>, \<open>OuterHTML\<close>: the \<open>chromedp\<close> actions of these
    names; \<open>WaitVisibleWithin n sel\<close> is \<open>waitForSelector\<close> with a timeout of \<open>n\<close> seconds.
  \<^item> \<open>WriteFile path data\<close>: \<open>os.WriteFile\<close>; \<open>Html2Text content\<close>:
    \<open>html2text.FromString\<close>; \<open>Sleep ms\<close>: \<open>time.Sleep\<close>.
  \<^item> \<open>ReadConsole\<close>: reading the console messages that the listener has collected
    (\<open>Lines\<close>).
  \<^item> \<open>CloseBrowser\<close>: cancelling the contexts at the end of a one-shot request.

  Any action may fail (\<open>Failure\<close>), for instance when the request's 60 seconds are over.
\<close>

datatype action =
    LoadSession string
  | SaveSession string SessionInfo
  | RemoveSession string
  | KillProcess int
  | EnsureChromium
  | StartSessionBrowser Config
  | RemoteContext string string
  | InitContext
  | ExecContext string bool bool "(int \<times> int) option"
  | AddStealthScript
  | Navigate string
  | WaitReady string
  | WaitVisible string
  | WaitVisibleWithin nat string
  | Evaluate string
  | Location
  | Clear string
  | SendKeys string string
  | Click string
  | FullScreenshot
  | WriteFile string string
  | OuterHTML string
  | Html2Text string
  | Sleep nat
  | ReadConsole
  | CloseBrowser

datatype reply =
    Failure string
  | Done
  | BoolValue bool
  | IntValue int
  | Text string
  | Lines "string list"
  | Info SessionInfo

datatype event =
    Did action
  | Stdout string
  | Stderr string
  | PrintedHelp
  | PrintedQuickstart

type_synonym 'w driver = "action \<Rightarrow> 'w \<Rightarrow> reply \<times> 'w"

type_synonym 'w run = "'w \<times> event list"

definition perform :: "'w driver \<Rightarrow> action \<Rightarrow> 'w run \<Rightarrow> reply \<times> 'w run" where
  "perform drv a st =
     (case drv a (fst st) of (r, w) \<Rightarrow> (r, (w, snd st @ [Did a])))"

definition emit :: "event \<Rightarrow> 'w run \<Rightarrow> 'w run" where
  "emit e st = (fst st, snd st @ [e])"

text \<open>
  The error of a call, if any (\<open>err != nil\<close>), and its message (\<open>%v\<close>). A reply of a
  shape the call cannot have is read as the call's variable left at its zero value.
\<close>

fun reply_error :: "reply \<Rightarrow> string option" where
  "reply_error (Failure e) = Some e"
| "reply_error r = None"

fun reply_message :: "reply \<Rightarrow> string" where
  "reply_message (Failure e) = e"
| "reply_message r = []"

fun reply_text :: "reply \<Rightarrow> string" where
  "reply_text (Text s) = s"
| "reply_text r = []"

fun reply_int :: "reply \<Rightarrow> int" where
  "reply_int (IntValue n) = n"
| "reply_int r = 0"

fun reply_lines :: "reply \<Rightarrow> string list" where
  "reply_lines (Lines ls) = ls"
| "reply_lines r = []"

text \<open>\<open>chromedp.Run(ctx, a1, a2, ...)\<close>: the actions in order, up to the first that fails.\<close>

fun run_tasks :: "'w driver \<Rightarrow> action list \<Rightarrow> 'w run \<Rightarrow> string option \<times> 'w run" where
  "run_tasks drv [] st = (None, st)"
| "run_tasks drv (a # as) st =
     (case perform drv a st of
        (r, st1) \<Rightarrow>
          (case reply_error r of
             Some e \<Rightarrow> (Some e, st1)
           | None \<Rightarrow> run_tasks drv as st1))"

abbreviation SQ :: char where
  "SQ \<equiv> CHR 0x27"

abbreviation DQ :: char where
  "DQ \<equiv> CHR 0x22"

abbreviation CR :: char where
  "CR \<equiv> CHR 0x0D"

section \<open>Stopping a session\<close>

definition stopSession :: "'w driver \<Rightarrow> string \<Rightarrow> 'w run \<Rightarrow> string option \<times> 'w run" where
  "stopSession drv sessionID st =
     (case perform drv (LoadSession sessionID) st of
        (Info info, st1) \<Rightarrow>
          (let st2 = (if PID info > 0 then snd (perform drv (KillProcess (PID info)) st1)
                      else st1)
           in case perform drv (RemoveSession sessionID) st2 of
                (r, st3) \<Rightarrow> (reply_error r, st3))
      | (r, st1) \<Rightarrow>
          (Some (''session '' @ [SQ] @ sessionID @ [SQ] @ '' not found''), st1))"

section \<open>Processing a request\<close>

text \<open>
  The session branch and the one-shot branch of \<open>processRequest\<close>, up to the context the
  request runs in. \<open>Some e\<close> is the error the function returns with.
\<close>

definition connect_browser :: "'w driver \<Rightarrow> Config \<Rightarrow> 'w run \<Rightarrow> string option \<times> 'w run" where
  "connect_browser drv config st =
     (if Session config \<noteq> [] then
        (case
           (case perform drv (LoadSession (Session config)) st of
              (Info existing, st1) \<Rightarrow>
                (Inr existing,
                 emit (Stderr (''Connecting to session '' @ [SQ] @ Session config @ [SQ]
                               @ ''...'' @ [LF])) st1)
            | (r, st1) \<Rightarrow>
                (case perform drv (StartSessionBrowser config)
                        (emit (Stderr (''Starting new session '' @ [SQ] @ Session config
                                       @ [SQ] @ ''...'' @ [LF])) st1) of
                   (Info started, st2) \<Rightarrow> (Inr started, st2)
                 | (r2, st2) \<Rightarrow> (Inl (reply_message r2), st2)))
         of
           (Inl e, st2) \<Rightarrow> (Some e, st2)
         | (Inr sessionInfo, st2) \<Rightarrow>
             (case perform drv (RemoteContext (WSURL sessionInfo) (TargetID sessionInfo)) st2 of
                (r3, st3) \<Rightarrow>
                  if TargetID sessionInfo = [] then
                    (case perform drv InitContext st3 of
                       (Text targetID, st4) \<Rightarrow>
                         (case perform drv
                                 (SaveSession (Session config)
                                    (sessionInfo\<lparr>TargetID := targetID\<rparr>)) st4 of
                            (r5, st5) \<Rightarrow>
                              (case reply_error r5 of
                                 Some e \<Rightarrow> (Some (''failed to save session: '' @ e), st5)
                               | None \<Rightarrow> (None, st5)))
                     | (r4, st4) \<Rightarrow>
                         (Some (''failed to initialize browser context: '' @ reply_message r4),
                          st4))
                  else (None, st3)))
      else
        (case perform drv
                (ExecContext (Profile config) (\<not> Headful config) (Stealth config)
                   (if WindowSize config \<noteq> [] then Some (parseWindowSize (WindowSize config))
                    else None)) st of
           (r, st1) \<Rightarrow> (None, st1)))"

definition stealth_step :: "'w driver \<Rightarrow> Config \<Rightarrow> 'w run \<Rightarrow> 'w run" where
  "stealth_step drv config st =
     (if Stealth config then
        (case perform drv AddStealthScript st of
           (r, st1) \<Rightarrow>
             (case reply_error r of
                Some e \<Rightarrow>
                  emit (Stderr (''Warning: Could not inject stealth script: '' @ e @ [LF])) st1
              | None \<Rightarrow> st1))
      else st)"

definition load_page :: "'w driver \<Rightarrow> string \<Rightarrow> 'w run \<Rightarrow> string option \<times> 'w run" where
  "load_page drv baseURL st =
     (case perform drv (Navigate baseURL) st of
        (r, st1) \<Rightarrow>
          (case reply_error r of
             Some e \<Rightarrow> (Some (''could not navigate to '' @ baseURL @ '': '' @ e), st1)
           | None \<Rightarrow>
               (case perform drv (WaitReady ''body'') st1 of
                  (r2, st2) \<Rightarrow>
                    (case reply_error r2 of
                       Some e \<Rightarrow> (Some (''page did not load: '' @ e), st2)
                     | None \<Rightarrow> (None, st2)))))"

definition detect_liveview :: "'w driver \<Rightarrow> 'w run \<Rightarrow> bool \<times> 'w run" where
  "detect_liveview drv st =
     (case perform drv
             (Evaluate (''document.querySelector('' @ [SQ] @ ''[data-phx-session]'' @ [SQ]
                        @ '') !== null'')) st of
        (r, st1) \<Rightarrow>
          (let isLiveView = (r = BoolValue True) in
           if isLiveView then
             (case perform drv (WaitVisibleWithin 10 ''.phx-connected'')
                     (emit (Stdout (''Detected Phoenix LiveView page, waiting for connection...''
                                    @ [LF])) st1) of
                (r2, st2) \<Rightarrow>
                  (case reply_error r2 of
                     Some e \<Rightarrow>
                       (isLiveView,
                        emit (Stdout (''Warning: Could not detect LiveView connection: ''
                                      @ e @ [LF])) st2)
                   | None \<Rightarrow>
                       (isLiveView, emit (Stdout (''Phoenix LiveView connected'' @ [LF])) st2)))
           else (isLiveView, st1)))"

text \<open>\<open>handleForm\<close>: first the loop over the inputs, then the submission.\<close>

fun fill_inputs :: "'w driver \<Rightarrow> string \<Rightarrow> FormInput list \<Rightarrow> 'w run \<Rightarrow> string option \<times> 'w run" where
  "fill_inputs drv formID [] st = (None, st)"
| "fill_inputs drv formID (input # inputs) st =
     (let selector = ''#'' @ formID @ '' input[name='' @ [SQ] @ Name input @ [SQ] @ '']'' in
      case run_tasks drv
             [WaitVisible selector, Clear selector, SendKeys selector (Value input)] st of
        (Some e, st1) \<Rightarrow> (Some (''could not fill input '' @ Name input @ '': '' @ e), st1)
      | (None, st1) \<Rightarrow> fill_inputs drv formID inputs st1)"

definition submit_form :: "'w driver \<Rightarrow> Config \<Rightarrow> bool \<Rightarrow> 'w run \<Rightarrow> string option \<times> 'w run" where
  "submit_form drv config isLiveView st =
     (let formSelector = ''#'' @ FormID config in
      if isLiveView then
        (case perform drv (SendKeys formSelector [CR])
                (emit (Stdout (''Waiting for Phoenix LiveView navigation...'' @ [LF])) st) of
           (r, st1) \<Rightarrow>
             (case reply_error r of
                Some e \<Rightarrow> (Some (''could not submit LiveView form: '' @ e), st1)
              | None \<Rightarrow>
                  (None,
                   emit (Stdout (''LiveView form submitted'' @ [LF]))
                     (snd (perform drv (Sleep 500) st1)))))
      else
        (let submitSelector =
               ''#'' @ FormID config @ '' input[type='' @ [SQ] @ ''submit'' @ [SQ] @ ''], #''
               @ FormID config @ '' button[type='' @ [SQ] @ ''submit'' @ [SQ] @ '']'';
             countScript =
               ''document.querySelectorAll('' @ [DQ] @ submitSelector @ [DQ] @ '').length''
         in case perform drv (Evaluate countScript) st of
              (r1, st1) \<Rightarrow>
                (case perform drv (Evaluate countScript) st1 of
                   (r2, st2) \<Rightarrow>
                     (let submitCount = reply_int r2 in
                      case (if submitCount > 0 then perform drv (Click submitSelector) st2
                            else perform drv (SendKeys formSelector [CR]) st2) of
                        (r3, st3) \<Rightarrow>
                          (case reply_error r3 of
                             Some e \<Rightarrow>
                               (Some ((if submitCount > 0 then ''could not click submit button: ''
                                       else ''could not submit form: '') @ e), st3)
                           | None \<Rightarrow> (None, emit (Stdout (''Form submitted'' @ [LF])) st3))))))"

definition handleForm :: "'w driver \<Rightarrow> Config \<Rightarrow> bool \<Rightarrow> 'w run \<Rightarrow> string option \<times> 'w run" where
  "handleForm drv config isLiveView st =
     (case fill_inputs drv (FormID config) (Inputs config) st of
        (Some e, st1) \<Rightarrow> (Some e, st1)
      | (None, st1) \<Rightarrow> submit_form drv config isLiveView st1)"

text \<open>The step \<open>// Handle form submission if specified\<close> of \<open>processRequest\<close>.\<close>

definition form_step :: "'w driver \<Rightarrow> Config \<Rightarrow> bool \<Rightarrow> 'w run \<Rightarrow> string option \<times> 'w run" where
  "form_step drv config isLiveView st =
     (if FormID config \<noteq> [] \<and> length (Inputs config) > 0 then
        (case handleForm drv config isLiveView st of
           (Some e, st1) \<Rightarrow> (Some (''error handling form: '' @ e), st1)
         | (None, st1) \<Rightarrow> (None, st1))
      else (None, st))"

definition js_step :: "'w driver \<Rightarrow> Config \<Rightarrow> bool \<Rightarrow> 'w run \<Rightarrow> 'w run" where
  "js_step drv config isLiveView st =
     (if JSCode config \<noteq> [] then
        (case perform drv Location st of
           (r1, st1) \<Rightarrow>
             (let currentURL = reply_text r1 in
              case perform drv (Evaluate (JSCode config)) st1 of
                (r2, st2) \<Rightarrow>
                  (let st3 = (case reply_error r2 of
                                Some e \<Rightarrow>
                                  emit (Stdout (''Warning: JavaScript execution failed: ''
                                                @ e @ [LF])) st2
                              | None \<Rightarrow> st2)
                   in if isLiveView then
                        (case perform drv Location
                                (snd (perform drv (Sleep 500)
                                   (emit (Stdout (''Waiting for Phoenix LiveView navigation...''
                                                  @ [LF])) st3))) of
                           (r4, st4) \<Rightarrow>
                             if reply_text r4 \<noteq> currentURL then
                               snd (perform drv (Sleep 500)
                                 (emit (Stdout (''URL changed, waiting for page to stabilize...''
                                                @ [LF])) st4))
                             else
                               emit (Stdout
                                 (''Info: No navigation detected (in-place LiveView update)''
                                  @ [LF])) st4)
                      else
                        (case perform drv Location
                                (snd (perform drv (Sleep 200)
                                   (emit (Stdout (''Waiting for page navigation...'' @ [LF]))
                                      st3))) of
                           (r4, st4) \<Rightarrow>
                             if reply_text r4 \<noteq> currentURL then
                               (case perform drv (WaitReady ''body'')
                                       (emit (Stdout
                                          (''Navigation detected, waiting for page load...''
                                           @ [LF])) st4) of
                                  (r5, st5) \<Rightarrow>
                                    (case reply_error r5 of
                                       Some e \<Rightarrow>
                                         emit (Stdout (''Warning: Page load wait timed out: ''
                                                       @ e @ [LF])) st5
                                     | None \<Rightarrow>
                                         emit (Stdout (''Page load completed'' @ [LF])) st5))
                             else
                               emit (Stdout
                                 (''Info: No navigation detected (page update without URL change)''
                                  @ [LF])) st4))))
      else st)"

definition screenshot_step :: "'w driver \<Rightarrow> Config \<Rightarrow> 'w run \<Rightarrow> string option \<times> 'w run" where
  "screenshot_step drv config st =
     (if ScreenshotPath config \<noteq> [] then
        (case perform drv FullScreenshot st of
           (Text screenshot, st1) \<Rightarrow>
             (case perform drv (WriteFile (ScreenshotPath config) screenshot) st1 of
                (r2, st2) \<Rightarrow>
                  (case reply_error r2 of
                     Some e \<Rightarrow> (Some (''error saving screenshot: '' @ e), st2)
                   | None \<Rightarrow>
                       (None,
                        emit (Stdout (''Screenshot saved to '' @ ScreenshotPath config @ [LF]))
                          st2)))
         | (r, st1) \<Rightarrow> (Some (''error taking screenshot: '' @ reply_message r), st1))
      else (None, st))"

definition after_submit_step :: "'w driver \<Rightarrow> Config \<Rightarrow> 'w run \<Rightarrow> string option \<times> 'w run" where
  "after_submit_step drv config st =
     (if AfterSubmitURL config \<noteq> [] then
        (case perform drv (Navigate (AfterSubmitURL config))
                (emit (Stdout (''Navigating to after-submit URL: '' @ AfterSubmitURL config
                               @ [LF])) st) of
           (r, st1) \<Rightarrow>
             (case reply_error r of
                Some e \<Rightarrow> (Some (''could not navigate to after-submit URL: '' @ e), st1)
              | None \<Rightarrow> (None, snd (perform drv (WaitReady ''body'') st1))))
      else (None, st))"

text \<open>
  The truncation. \<open>text\<close> is what \<open>html2text\<close> gave and \<open>markdown\<close> the cleaned text;
  the slice \<open>markdown[:n]\<close> panics when \<open>n\<close> is negative (\<open>None\<close>).
\<close>

definition truncation_notice :: "int \<Rightarrow> int \<Rightarrow> string" where
  "truncation_notice limit full =
     [LF, LF] @ ''... (output truncated after '' @ fmt_d limit
     @ '' chars, full content was '' @ fmt_d full @ '' chars)''"

definition slice_to :: "string \<Rightarrow> int \<Rightarrow> string option" where
  "slice_to s n = (if 0 \<le> n \<and> n \<le> int (length s) then Some (take (nat n) s) else None)"

definition truncate_markdown :: "Config \<Rightarrow> string \<Rightarrow> string \<Rightarrow> string option" where
  "truncate_markdown config text markdown =
     (if int (length markdown) > TruncateAfter config then
        (case slice_to markdown (TruncateAfter config) of
           None \<Rightarrow> None
         | Some kept \<Rightarrow>
             Some (kept @ truncation_notice (TruncateAfter config) (int (length text))))
      else Some markdown)"

definition banner_line :: string where
  "banner_line = ''==========================''"

definition page_header :: "string \<Rightarrow> string \<Rightarrow> string" where
  "page_header baseURL markdown =
     banner_line @ [LF] @ baseURL @ [LF] @ banner_line @ [LF, LF] @ markdown"

definition console_section :: "string list \<Rightarrow> string" where
  "console_section consoleMessages =
     (if length consoleMessages > 0 then
        [LF, LF] @ replicate 50 (CHR ''='') @ [LF] @ ''CONSOLE OUTPUT:'' @ [LF]
        @ replicate 50 (CHR ''='') @ [LF] @ concat (map (\<lambda>msg. msg @ [LF]) consoleMessages)
      else [])"

datatype outcome = Returned string | Failed string | Panicked

text \<open>
  From the page content on: raw output, or conversion, cleanup, truncation, header,
  console section, and the end of the browser in one-shot mode.
\<close>

definition render_page :: "'w driver \<Rightarrow> Config \<Rightarrow> string \<Rightarrow> 'w run \<Rightarrow> outcome \<times> 'w run" where
  "render_page drv config baseURL st =
     (case perform drv (OuterHTML ''html'') st of
        (Text content, st1) \<Rightarrow>
          if RawFlag config then (Returned content, st1)
          else
            (case perform drv (Html2Text content) st1 of
               (Text text, st2) \<Rightarrow>
                 (case truncate_markdown config text (cleanMarkdown text) of
                    None \<Rightarrow> (Panicked, st2)
                  | Some markdown \<Rightarrow>
                      (case perform drv ReadConsole st2 of
                         (r3, st3) \<Rightarrow>
                           (Returned (page_header baseURL markdown
                                      @ console_section (reply_lines r3)),
                            if Session config \<noteq> [] then st3
                            else snd (perform drv CloseBrowser
                                   (snd (perform drv (Sleep 100)
                                      (snd (perform drv (Navigate ''about:blank'') st3))))))))
             | (r2, st2) \<Rightarrow>
                 (Failed (''could not convert HTML to text: '' @ reply_message r2), st2))
      | (r, st1) \<Rightarrow> (Failed (''could not get page content: '' @ reply_message r), st1))"

definition processRequest :: "'w driver \<Rightarrow> Config \<Rightarrow> 'w run \<Rightarrow> outcome \<times> 'w run" where
  "processRequest drv config st =
     (let baseURL = ensureProtocol (URL config) in
      case connect_browser drv config st of
        (Some e, st1) \<Rightarrow> (Failed e, st1)
      | (None, st1) \<Rightarrow>
          (case load_page drv baseURL (stealth_step drv config st1) of
             (Some e, st2) \<Rightarrow> (Failed e, st2)
           | (None, st2) \<Rightarrow>
               (case detect_liveview drv st2 of
                  (isLiveView, st3) \<Rightarrow>
                    (case form_step drv config isLiveView st3 of
                       (Some e, st4) \<Rightarrow> (Failed e, st4)
                     | (None, st4) \<Rightarrow>
                         (case screenshot_step drv config
                                 (js_step drv config isLiveView st4) of
                            (Some e, st5) \<Rightarrow> (Failed e, st5)
                          | (None, st5) \<Rightarrow>
                              (case after_submit_step drv config st5 of
                                 (Some e, st6) \<Rightarrow> (Failed e, st6)
                               | (None, st6) \<Rightarrow> render_page drv config baseURL st6))))))"

section \<open>The program\<close>

text \<open>
  \<open>main\<close>: the exit status (0 when \<open>main\<close> returns, 1 from \<open>os.Exit(1)\<close>, 2 after a
  panic) and the run.
\<close>

definition main :: "'w driver \<Rightarrow> string list \<Rightarrow> 'w \<Rightarrow> int \<times> 'w run" where
  "main drv args w =
     (case parseArgs args of
        HelpExit \<Rightarrow> (0, (w, [PrintedHelp]))
      | QuickstartExit \<Rightarrow> (0, (w, [PrintedQuickstart]))
      | Parsed config \<Rightarrow>
          if StopSession config then
            (if Session config = [] then
               (1, (w, [Stderr (''Error: --stop requires --session <id>'' @ [LF])]))
             else
               (case stopSession drv (Session config) (w, []) of
                  (Some e, st) \<Rightarrow>
                    (1, emit (Stderr (''Error stopping session: '' @ e @ [LF])) st)
                | (None, st) \<Rightarrow>
                    (0, emit (Stdout (''Session '' @ [SQ] @ Session config @ [SQ]
                                      @ '' stopped'' @ [LF])) st)))
          else if URL config = [] then (1, (w, [PrintedHelp]))
          else
            (case perform drv EnsureChromium (w, []) of
               (r, st) \<Rightarrow>
                 (case reply_error r of
                    Some e \<Rightarrow>
                      (1, emit (Stderr (''Error setting up Chromium: '' @ e @ [LF])) st)
                  | None \<Rightarrow>
                      (case processRequest drv config st of
                         (Returned result, st1) \<Rightarrow> (0, emit (Stdout (result @ [LF])) st1)
                       | (Failed e, st1) \<Rightarrow>
                           (1, emit (Stderr (''Error processing request: '' @ e @ [LF])) st1)
                       | (Panicked, st1) \<Rightarrow> (2, st1)))))"

section \<open>Notions the properties are stated with\<close>




definition has_protocol :: "string \<Rightarrow> bool" where
  "has_protocol u \<longleftrightarrow> strings_HasPrefix u ''http://'' \<or> strings_HasPrefix u ''https://''"

text \<open>
  The fields of a string between the occurrences of one byte, by recursion on the string:
  what \<open>strings.Split\<close> returns for a one-byte separator (lemma \<open>Split_fields\<close>).
\<close>

fun fields :: "char \<Rightarrow> string \<Rightarrow> string list" where
  "fields c [] = [[]]"
| "fields c (x # xs) =
     (if x = c then [] # fields c xs else (x # hd (fields c xs)) # tl (fields c xs))"

text \<open>The lines that are not empty.\<close>

abbreviation nonblank :: "string list \<Rightarrow> string list" where
  "nonblank ls \<equiv> filter (\<lambda>l. l \<noteq> []) ls"

text \<open>
  A line that starts with the bullet marker \<open>-\<close> and exactly one space: \<open>- \<close> and then
  no further space.
\<close>

definition dash_bullet_one_space :: "string \<Rightarrow> bool" where
  "dash_bullet_one_space l \<longleftrightarrow>
     strings_HasPrefix l ''- '' \<and> \<not> strings_HasPrefix l ''-  ''"

text \<open>
  The events of filling and submitting a form: clearing a field, sending keys, clicking.
  Only \<open>handleForm\<close> performs them. A run is free of them when none is in its record.
\<close>

fun form_event :: "event \<Rightarrow> bool" where
  "form_event (Did (Clear sel)) = True"
| "form_event (Did (SendKeys sel keys)) = True"
| "form_event (Did (Click sel)) = True"
| "form_event e = False"

definition form_free :: "'w run \<Rightarrow> bool" where
  "form_free st \<longleftrightarrow> \<not> list_ex form_event (snd st)"

text \<open>
  A world for examples: every action succeeds, the page is a small document and its
  text is \<open>hello\<close>.
\<close>

definition demo_driver :: "unit driver" where
  "demo_driver a w =
     (case a of
        OuterHTML sel \<Rightarrow> (Text ''<html><body>hello</body></html>'', w)
      | Html2Text content \<Rightarrow> (Text ''hello'', w)
      | FullScreenshot \<Rightarrow> (Text ''png'', w)
      | _ \<Rightarrow> (Done, w))"

section \<open>Lemmas: splitting and joining\<close>

lemma HasPrefix_single: "strings_HasPrefix (x # xs) [c] \<longleftrightarrow> x = c"
  by (simp add: strings_HasPrefix_def)

lemma split_scan_single_hit:
  "split_scan cur (c # xs) [c] = cur # split_scan [] xs [c]"
  by (simp add: HasPrefix_single)

lemma split_scan_single_miss:
  "x \<noteq> c \<Longrightarrow> split_scan cur (x # xs) [c] = split_scan (cur @ [x]) xs [c]"
  by (simp add: HasPrefix_single)

lemma split_scan_nonempty: "split_scan cur s [c] \<noteq> []"
  by (induction s arbitrary: cur) (simp_all add: HasPrefix_single)

lemma Join_Cons: "ys \<noteq> [] \<Longrightarrow> strings_Join (x # ys) sep = x @ sep @ strings_Join ys sep"
  by (cases ys) simp_all

lemma Join_split_scan: "strings_Join (split_scan cur s [c]) [c] = cur @ s"
proof (induction s arbitrary: cur)
  case Nil
  then show ?case by simp
next
  case (Cons x xs)
  show ?case
  proof (cases "x = c")
    case True
    then show ?thesis
      using Cons [of "[]"]
      by (simp add: split_scan_single_hit Join_Cons split_scan_nonempty del: split_scan.simps)
  next
    case False
    then show ?thesis
      using Cons [of "cur @ [x]"] by (simp add: split_scan_single_miss del: split_scan.simps)
  qed
qed

lemma Join_Split: "strings_Join (strings_Split s [c]) [c] = s"
  by (simp add: strings_Split_def Join_split_scan)

lemma fields_nonempty [simp]: "fields c s \<noteq> []"
  by (induction s) simp_all

lemma split_scan_fields:
  "split_scan cur s [c] = (cur @ hd (fields c s)) # tl (fields c s)"
proof (induction s arbitrary: cur)
  case Nil
  then show ?case by simp
next
  case (Cons x xs)
  show ?case
  proof (cases "x = c")
    case True
    then show ?thesis
      using Cons [of "[]"] by (simp add: split_scan_single_hit del: split_scan.simps)
  next
    case False
    then show ?thesis
      using Cons [of "cur @ [x]"] by (simp add: split_scan_single_miss del: split_scan.simps)
  qed
qed

lemma Split_fields: "strings_Split s [c] = fields c s"
  by (simp add: strings_Split_def split_scan_fields)

lemma HasPrefix_iff: "strings_HasPrefix s p \<longleftrightarrow> (\<exists>b. s = p @ b)"
proof
  assume "strings_HasPrefix s p"
  then have "s = p @ drop (length p) s"
    by (metis append_take_drop_id strings_HasPrefix_def)
  then show "\<exists>b. s = p @ b" ..
next
  assume "\<exists>b. s = p @ b"
  then show "strings_HasPrefix s p" by (auto simp: strings_HasPrefix_def)
qed

lemma HasPrefix_append: "strings_HasPrefix l p \<Longrightarrow> strings_HasPrefix (l @ r) p"
  by (auto simp: HasPrefix_iff)

lemma Contains_iff: "strings_Contains s sub \<longleftrightarrow> (\<exists>a b. s = a @ sub @ b)"
proof (induction s)
  case Nil
  then show ?case by auto
next
  case (Cons x xs)
  show ?case
  proof
    assume "strings_Contains (x # xs) sub"
    then consider "strings_HasPrefix (x # xs) sub" | "strings_Contains xs sub" by auto
    then show "\<exists>a b. x # xs = a @ sub @ b"
    proof cases
      case 1
      then obtain b where "x # xs = sub @ b" by (auto simp: HasPrefix_iff)
      then have "x # xs = [] @ sub @ b" by simp
      then show ?thesis by blast
    next
      case 2
      with Cons obtain a b where "xs = a @ sub @ b" by blast
      then have "x # xs = (x # a) @ sub @ b" by simp
      then show ?thesis by blast
    qed
  next
    assume "\<exists>a b. x # xs = a @ sub @ b"
    then obtain a b where ab: "x # xs = a @ sub @ b" by blast
    show "strings_Contains (x # xs) sub"
    proof (cases a)
      case Nil
      with ab have "strings_HasPrefix (x # xs) sub" by (auto simp: HasPrefix_iff)
      then show ?thesis by simp
    next
      case (Cons y ys)
      with ab have "xs = ys @ sub @ b" by simp
      with Cons.IH have "strings_Contains xs sub" by blast
      then show ?thesis by simp
    qed
  qed
qed

lemma fields_append:
  "fields c (a @ b) =
     butlast (fields c a) @ [last (fields c a) @ hd (fields c b)] @ tl (fields c b)"
proof (induction a)
  case Nil
  then show ?case by simp
next
  case (Cons x xs)
  show ?case
  proof (cases "x = c")
    case True
    with Cons show ?thesis by simp
  next
    case False
    show ?thesis
    proof (cases "tl (fields c xs) = []")
      case True
      then have one: "fields c xs = [hd (fields c xs)]"
        by (metis fields_nonempty list.collapse)
      then have "butlast (fields c xs) = []" "last (fields c xs) = hd (fields c xs)"
        by (metis butlast.simps(2), metis last.simps)
      with Cons False True show ?thesis by simp
    next
      case ne: False
      then have "butlast (fields c xs) = hd (fields c xs) # butlast (tl (fields c xs))"
        by (metis butlast.simps(2) fields_nonempty list.collapse)
      moreover from ne have "last (fields c xs) = last (tl (fields c xs))"
        by (metis fields_nonempty last_tl list.sel(2))
      ultimately show ?thesis using Cons False ne by simp
    qed
  qed
qed

lemma fields_free: "l \<in> set (fields c s) \<Longrightarrow> c \<notin> set l"
proof (induction s arbitrary: l)
  case Nil
  then show ?case by simp
next
  case (Cons x xs)
  show ?case
  proof (cases "x = c")
    case True
    with Cons show ?thesis by auto
  next
    case False
    have hd_in: "hd (fields c xs) \<in> set (fields c xs)" by simp
    from Cons.prems False have "l = x # hd (fields c xs) \<or> l \<in> set (tl (fields c xs))"
      by simp
    then show ?thesis
    proof
      assume "l = x # hd (fields c xs)"
      with False Cons.IH [OF hd_in] show ?thesis by auto
    next
      assume "l \<in> set (tl (fields c xs))"
      then have "l \<in> set (fields c xs)" by (metis fields_nonempty list.set_sel(2))
      then show ?thesis by (rule Cons.IH)
    qed
  qed
qed

section \<open>Lemmas: trimming white space\<close>

lemma leading_space_zero_iff:
  "leading_space encs s = 0 \<longleftrightarrow> (\<forall>e \<in> set encs. e \<noteq> [] \<longrightarrow> \<not> strings_HasPrefix s e)"
proof (cases "filter (\<lambda>e. e \<noteq> [] \<and> strings_HasPrefix s e) encs")
  case Nil
  then have "\<forall>e \<in> set encs. \<not> (e \<noteq> [] \<and> strings_HasPrefix s e)"
    by (simp add: filter_empty_conv)
  with Nil show ?thesis by (auto simp: leading_space_def)
next
  case (Cons e es)
  then have "e \<in> set (filter (\<lambda>e. e \<noteq> [] \<and> strings_HasPrefix s e) encs)" by simp
  then have "e \<in> set encs" "e \<noteq> []" "strings_HasPrefix s e" by simp_all
  with Cons show ?thesis by (auto simp: leading_space_def)
qed

lemma leading_space_take:
  assumes "leading_space encs s \<noteq> 0"
  shows "take (leading_space encs s) s \<in> set encs"
proof (cases "filter (\<lambda>e. e \<noteq> [] \<and> strings_HasPrefix s e) encs")
  case Nil
  with assms show ?thesis by (simp add: leading_space_def)
next
  case (Cons e es)
  then have "e \<in> set (filter (\<lambda>e. e \<noteq> [] \<and> strings_HasPrefix s e) encs)" by simp
  then have "e \<in> set encs" "strings_HasPrefix s e" by simp_all
  with Cons show ?thesis by (simp add: leading_space_def strings_HasPrefix_def)
qed

lemma trim_left_fixed: "leading_space encs s = 0 \<Longrightarrow> trim_left encs s = s"
  by (subst trim_left.simps) simp

lemma trim_left_step:
  "leading_space encs s \<noteq> 0 \<Longrightarrow>
   trim_left encs s = trim_left encs (drop (leading_space encs s) s)"
  by (subst trim_left.simps) simp

lemma trim_left_done: "leading_space encs (trim_left encs s) = 0"
proof (induction encs s rule: trim_left.induct)
  case (1 encs s)
  show ?case
  proof (cases "leading_space encs s = 0")
    case True
    then show ?thesis by (simp add: trim_left_fixed)
  next
    case False
    with 1 show ?thesis by (simp add: trim_left_step)
  qed
qed

lemma trim_left_is_suffix: "\<exists>p. s = p @ trim_left encs s"
proof (induction encs s rule: trim_left.induct)
  case (1 encs s)
  show ?case
  proof (cases "leading_space encs s = 0")
    case True
    then have "s = [] @ trim_left encs s" by (simp add: trim_left_fixed)
    then show ?thesis by blast
  next
    case False
    from 1 [OF False] obtain p where
      p: "drop (leading_space encs s) s = p @ trim_left encs (drop (leading_space encs s) s)"
      by blast
    have "trim_left encs s = trim_left encs (drop (leading_space encs s) s)"
      using False by (rule trim_left_step)
    with p have "s = (take (leading_space encs s) s @ p) @ trim_left encs s"
      by (metis append.assoc append_take_drop_id)
    then show ?thesis by blast
  qed
qed

lemma trim_right_is_prefix: "\<exists>q. s = trim_right encs s @ q"
proof -
  from trim_left_is_suffix [of "rev s" "map rev encs"] obtain p where
    "rev s = p @ trim_left (map rev encs) (rev s)" by blast
  then have "rev (rev s) = rev (p @ trim_left (map rev encs) (rev s))" by simp
  then have "s = trim_right encs s @ rev p" by (simp add: trim_right_def)
  then show ?thesis by blast
qed

lemma trim_right_done: "leading_space (map rev encs) (rev (trim_right encs s)) = 0"
  by (simp add: trim_right_def trim_left_done)

lemma trim_right_fixed:
  "leading_space (map rev encs) (rev s) = 0 \<Longrightarrow> trim_right encs s = s"
  by (simp add: trim_right_def trim_left_fixed)

lemma leading_space_prefix:
  assumes "leading_space encs (b @ q) = 0"
  shows "leading_space encs b = 0"
proof -
  have "\<not> strings_HasPrefix b e" if "e \<in> set encs" "e \<noteq> []" for e
  proof
    assume "strings_HasPrefix b e"
    then obtain r where "b = e @ r" by (auto simp: HasPrefix_iff)
    then have "strings_HasPrefix (b @ q) e" by (auto simp: HasPrefix_iff)
    with assms that show False by (simp add: leading_space_zero_iff)
  qed
  then show ?thesis by (simp add: leading_space_zero_iff)
qed

lemma TrimSpace_is_infix: "\<exists>p q. s = p @ strings_TrimSpace s @ q"
proof -
  obtain p where p: "s = p @ trim_left space_encodings s"
    using trim_left_is_suffix by blast
  obtain q where "trim_left space_encodings s = strings_TrimSpace s @ q"
    using trim_right_is_prefix [of "trim_left space_encodings s" space_encodings]
    by (auto simp: strings_TrimSpace_def)
  with p have "s = p @ strings_TrimSpace s @ q" by simp
  then show ?thesis by blast
qed

lemma TrimSpace_no_leading: "leading_space space_encodings (strings_TrimSpace s) = 0"
proof -
  obtain q where "trim_left space_encodings s = strings_TrimSpace s @ q"
    using trim_right_is_prefix [of "trim_left space_encodings s" space_encodings]
    by (auto simp: strings_TrimSpace_def)
  moreover have "leading_space space_encodings (trim_left space_encodings s) = 0"
    by (rule trim_left_done)
  ultimately show ?thesis using leading_space_prefix by metis
qed

lemma TrimSpace_fixed:
  assumes "leading_space space_encodings s = 0"
    and "leading_space (map rev space_encodings) (rev s) = 0"
  shows "strings_TrimSpace s = s"
  using assms by (simp add: strings_TrimSpace_def trim_right_fixed trim_left_fixed)

lemma TrimSpace_idem: "strings_TrimSpace (strings_TrimSpace s) = strings_TrimSpace s"
proof (rule TrimSpace_fixed)
  show "leading_space space_encodings (strings_TrimSpace s) = 0"
    by (rule TrimSpace_no_leading)
  show "leading_space (map rev space_encodings) (rev (strings_TrimSpace s)) = 0"
    unfolding strings_TrimSpace_def by (rule trim_right_done)
qed

lemma leading_space_first:
  assumes "leading_space encs s \<noteq> 0"
  obtains us e vs where "encs = us @ e # vs" "e \<noteq> []" "strings_HasPrefix s e"
    "\<forall>u \<in> set us. \<not> (u \<noteq> [] \<and> strings_HasPrefix s u)" "leading_space encs s = length e"
proof (cases "filter (\<lambda>e. e \<noteq> [] \<and> strings_HasPrefix s e) encs")
  case Nil
  with assms show ?thesis by (simp add: leading_space_def)
next
  case (Cons e es)
  then obtain us vs where "encs = us @ e # vs"
    "\<forall>u \<in> set us. \<not> (u \<noteq> [] \<and> strings_HasPrefix s u)" "e \<noteq> [] \<and> strings_HasPrefix s e"
    by (auto simp: filter_eq_Cons_iff)
  moreover from Cons have "leading_space encs s = length e" by (simp add: leading_space_def)
  ultimately show ?thesis using that by blast
qed

lemma leading_space_of_prefix:
  assumes n: "leading_space encs (p @ r) \<noteq> 0" and le: "leading_space encs (p @ r) \<le> length p"
  shows "leading_space encs p = leading_space encs (p @ r)"
proof -
  from n obtain us e vs where E: "encs = us @ e # vs" and e: "e \<noteq> []"
    and he: "strings_HasPrefix (p @ r) e"
    and us: "\<forall>u \<in> set us. \<not> (u \<noteq> [] \<and> strings_HasPrefix (p @ r) u)"
    and len: "leading_space encs (p @ r) = length e"
    by (rule leading_space_first)
  from he le len have hp: "strings_HasPrefix p e" by (simp add: strings_HasPrefix_def)
  have "\<forall>u \<in> set us. \<not> (u \<noteq> [] \<and> strings_HasPrefix p u)"
    using us HasPrefix_append by blast
  then have "filter (\<lambda>e. e \<noteq> [] \<and> strings_HasPrefix p e) us = []"
    by (simp add: filter_empty_conv)
  with E e hp have "filter (\<lambda>e. e \<noteq> [] \<and> strings_HasPrefix p e) encs
                      = e # filter (\<lambda>e. e \<noteq> [] \<and> strings_HasPrefix p e) vs"
    by simp
  then have "leading_space encs p = length e" by (simp add: leading_space_def)
  with len show ?thesis by simp
qed

lemma trim_left_Nil: "trim_left encs [] = []"
  by (rule trim_left_fixed) (simp add: leading_space_zero_iff strings_HasPrefix_def)

lemma trim_left_removed: "\<exists>p. s = p @ trim_left encs s \<and> trim_left encs p = []"
proof (induction encs s rule: trim_left.induct)
  case (1 encs s)
  show ?case
  proof (cases "leading_space encs s = 0")
    case True
    then have "s = [] @ trim_left encs s \<and> trim_left encs [] = []"
      by (simp add: trim_left_fixed trim_left_Nil)
    then show ?thesis by blast
  next
    case False
    define n where "n = leading_space encs s"
    from 1 [OF False] obtain p where
      p: "drop n s = p @ trim_left encs (drop n s)" and pe: "trim_left encs p = []"
      unfolding n_def by blast
    have step: "trim_left encs s = trim_left encs (drop n s)"
      unfolding n_def using False by (rule trim_left_step)
    have nle: "n \<le> length s" unfolding n_def by (rule leading_space_le)
    from p step have s: "s = (take n s @ p) @ trim_left encs s"
      by (metis append.assoc append_take_drop_id)
    have "leading_space encs ((take n s @ p) @ trim_left encs s) \<le> length (take n s @ p)"
      using s nle n_def by simp
    moreover have "leading_space encs ((take n s @ p) @ trim_left encs s) \<noteq> 0"
      using s False by simp
    ultimately have "leading_space encs (take n s @ p) = n"
      using leading_space_of_prefix [of encs "take n s @ p" "trim_left encs s"] s n_def
      by simp
    moreover from False have "n \<noteq> 0" by (simp add: n_def)
    ultimately have "trim_left encs (take n s @ p) = trim_left encs (drop n (take n s @ p))"
      using trim_left_step [of encs "take n s @ p"] by simp
    also have "drop n (take n s @ p) = p" using nle by simp
    finally have "trim_left encs (take n s @ p) = []" using pe by simp
    with s show ?thesis by blast
  qed
qed

lemma trim_right_removed: "\<exists>q. s = trim_right encs s @ q \<and> trim_right encs q = []"
proof -
  from trim_left_removed [of "rev s" "map rev encs"] obtain p where
    p: "rev s = p @ trim_left (map rev encs) (rev s)" and pe: "trim_left (map rev encs) p = []"
    by blast
  from p have "rev (rev s) = rev (p @ trim_left (map rev encs) (rev s))" by simp
  then have "s = trim_right encs s @ rev p" by (simp add: trim_right_def)
  moreover have "trim_right encs (rev p) = []" using pe by (simp add: trim_right_def)
  ultimately show ?thesis by blast
qed

lemma TrimSpace_removed:
  "\<exists>p q. s = p @ strings_TrimSpace s @ q \<and>
         trim_left space_encodings p = [] \<and> trim_right space_encodings q = []"
proof -
  obtain p where p: "s = p @ trim_left space_encodings s"
    and pe: "trim_left space_encodings p = []"
    using trim_left_removed by blast
  obtain q where q: "trim_left space_encodings s = strings_TrimSpace s @ q"
    and qe: "trim_right space_encodings q = []"
    using trim_right_removed [of "trim_left space_encodings s" space_encodings]
    by (auto simp: strings_TrimSpace_def)
  from p q have "s = p @ strings_TrimSpace s @ q" by simp
  with pe qe show ?thesis by blast
qed


section \<open>Lemmas: markdown cleanup\<close>

lemma fields_free_line: "c \<notin> set l \<Longrightarrow> fields c l = [l]"
  by (induction l) auto

lemma fields_line_sep: "c \<notin> set l \<Longrightarrow> fields c (l @ c # r) = l # fields c r"
  by (induction l) auto

lemma fields_Join:
  "ls \<noteq> [] \<Longrightarrow> \<forall>l \<in> set ls. c \<notin> set l \<Longrightarrow> fields c (strings_Join ls [c]) = ls"
proof (induction ls "[c]" rule: strings_Join.induct)
  case 1
  then show ?case by simp
next
  case (2 x)
  then show ?case by (simp add: fields_free_line)
next
  case (3 x y ys)
  then show ?case by (simp add: fields_line_sep)
qed

lemma Join_append:
  "A \<noteq> [] \<Longrightarrow> B \<noteq> [] \<Longrightarrow>
   strings_Join (A @ B) sep = strings_Join A sep @ sep @ strings_Join B sep"
proof (induction A)
  case Nil
  then show ?case by simp
next
  case (Cons a A)
  show ?case
  proof (cases "A = []")
    case True
    with Cons.prems show ?thesis by (simp add: Join_Cons)
  next
    case False
    with Cons show ?thesis by (simp add: Join_Cons)
  qed
qed

lemma Join_fields: "strings_Join (fields c s) [c] = s"
  using Join_Split [of s c] by (simp add: Split_fields)

lemma TrimPrefix_set: "set (strings_TrimPrefix s p) \<subseteq> set s"
  by (auto simp: strings_TrimPrefix_def dest: in_set_dropD)

lemma normalize_bullet_empty: "normalize_bullet l = [] \<longleftrightarrow> l = []"
  by (auto simp: normalize_bullet_def strings_HasPrefix_def)

lemma normalize_bullet_free: "LF \<notin> set l \<Longrightarrow> LF \<notin> set (normalize_bullet l)"
proof -
  assume free: "LF \<notin> set l"
  have "set (strings_TrimPrefix (strings_TrimPrefix l ''* '') ''- '') \<subseteq> set l"
    using TrimPrefix_set by blast
  with free show ?thesis by (auto simp: normalize_bullet_def)
qed

lemma collapse_stop:
  "\<not> strings_Contains s [LF, LF, LF] \<Longrightarrow> collapse_blank_lines s = s"
  by (subst collapse_blank_lines.simps) simp

lemma collapse_step:
  "strings_Contains s [LF, LF, LF] \<Longrightarrow>
   collapse_blank_lines s = collapse_blank_lines (replace_scan s [LF, LF, LF] [LF, LF])"
  by (subst collapse_blank_lines.simps) (simp add: strings_ReplaceAll_def)

lemma collapse_no_run: "\<not> strings_Contains (collapse_blank_lines s) [LF, LF, LF]"
proof (induction s rule: collapse_blank_lines.induct)
  case (1 s)
  show ?case
  proof (cases "strings_Contains s [LF, LF, LF]")
    case True
    with 1 show ?thesis by (simp add: collapse_step strings_ReplaceAll_def)
  next
    case False
    then show ?thesis by (simp add: collapse_stop)
  qed
qed

lemma joined_lines_eq:
  "joined_lines s = strings_Join (map normalize_bullet (fields LF (collapse_blank_lines s))) [LF]"
  by (simp add: joined_lines_def strings_ReplaceAll_def Split_fields)

lemma fields_joined_lines:
  "fields LF (joined_lines s) = map normalize_bullet (fields LF (collapse_blank_lines s))"
  unfolding joined_lines_eq
proof (rule fields_Join)
  show "map normalize_bullet (fields LF (collapse_blank_lines s)) \<noteq> []" by simp
  show "\<forall>l \<in> set (map normalize_bullet (fields LF (collapse_blank_lines s))). LF \<notin> set l"
  proof
    fix l assume "l \<in> set (map normalize_bullet (fields LF (collapse_blank_lines s)))"
    then obtain l0 where "l0 \<in> set (fields LF (collapse_blank_lines s))"
      and l: "l = normalize_bullet l0" by auto
    then have "LF \<notin> set l0" by (auto dest: fields_free)
    with l show "LF \<notin> set l" by (simp add: normalize_bullet_free)
  qed
qed

lemma fields_run:
  "fields LF (a @ [LF, LF, LF] @ b) = fields LF a @ [[], []] @ fields LF b"
proof -
  have "fields LF ([LF, LF, LF] @ b) = [] # [] # [] # fields LF b" by simp
  then have "fields LF (a @ [LF, LF, LF] @ b)
      = butlast (fields LF a) @ [last (fields LF a) @ []] @ [] # [] # fields LF b"
    by (subst fields_append) simp
  also have "\<dots> = (butlast (fields LF a) @ [last (fields LF a)]) @ [[], []] @ fields LF b"
    by simp
  also have "butlast (fields LF a) @ [last (fields LF a)] = fields LF a"
    by simp
  finally show ?thesis .
qed

lemma map_bullet_run:
  assumes "map normalize_bullet F = A @ [[], []] @ B"
  shows "\<exists>us zs. F = us @ [[], []] @ zs \<and> map normalize_bullet us = A
                  \<and> map normalize_bullet zs = B"
proof -
  from assms obtain us vs where F: "F = us @ vs" and us: "map normalize_bullet us = A"
    and vs: "map normalize_bullet vs = [[], []] @ B"
    by (auto simp: map_eq_append_conv)
  from vs obtain x y zs where v: "vs = x # y # zs" and "normalize_bullet x = []"
    and "normalize_bullet y = []" and zs: "map normalize_bullet zs = B"
    by (auto simp: map_eq_Cons_conv)
  then have "vs = [[], []] @ zs" by (simp add: normalize_bullet_empty)
  with F us zs show ?thesis by blast
qed

lemma joined_lines_no_run: "\<not> strings_Contains (joined_lines s) [LF, LF, LF]"
proof
  assume "strings_Contains (joined_lines s) [LF, LF, LF]"
  then obtain a b where j: "joined_lines s = a @ [LF, LF, LF] @ b"
    by (auto simp: Contains_iff)
  define t where "t = collapse_blank_lines s"
  have "fields LF (joined_lines s) = fields LF a @ [[], []] @ fields LF b"
    by (simp only: j fields_run)
  then have "map normalize_bullet (fields LF t) = fields LF a @ [[], []] @ fields LF b"
    by (simp only: fields_joined_lines t_def)
  from map_bullet_run [OF this] obtain us zs where
    F: "fields LF t = us @ [[], []] @ zs" and us: "map normalize_bullet us = fields LF a"
    and zs: "map normalize_bullet zs = fields LF b"
    by blast
  from us have use: "us \<noteq> []" by (metis fields_nonempty list.map_disc_iff)
  from zs have zse: "zs \<noteq> []" by (metis fields_nonempty list.map_disc_iff)
  have "t = strings_Join (fields LF t) [LF]" by (simp add: Join_fields)
  also have "\<dots> = strings_Join us [LF] @ [LF] @ strings_Join ([[], []] @ zs) [LF]"
    using use by (simp add: F Join_append)
  also have "strings_Join ([[], []] @ zs) [LF] = [LF, LF] @ strings_Join zs [LF]"
    using zse by (simp add: Join_Cons)
  finally have "t = strings_Join us [LF] @ [LF, LF, LF] @ strings_Join zs [LF]" by simp
  then have "strings_Contains t [LF, LF, LF]" unfolding Contains_iff by blast
  then show False by (simp add: t_def collapse_no_run)
qed

lemma Contains_infix:
  "strings_Contains s sub \<Longrightarrow> strings_Contains (p @ s @ q) sub"
proof -
  assume "strings_Contains s sub"
  then obtain a b where "s = a @ sub @ b" by (auto simp: Contains_iff)
  then have "p @ s @ q = (p @ a) @ sub @ (b @ q)" by simp
  then show ?thesis unfolding Contains_iff by blast
qed

lemma cleanMarkdown_no_run: "\<not> strings_Contains (cleanMarkdown s) [LF, LF, LF]"
proof
  assume c: "strings_Contains (cleanMarkdown s) [LF, LF, LF]"
  obtain p q where "joined_lines s = p @ cleanMarkdown s @ q"
    using TrimSpace_is_infix [of "joined_lines s"] by (auto simp: cleanMarkdown_def)
  with Contains_infix [OF c, of p q] joined_lines_no_run [of s] show False by simp
qed

lemma nonblank_hd_tl:
  "ls \<noteq> [] \<Longrightarrow> ms \<noteq> [] \<Longrightarrow> hd ls = hd ms \<Longrightarrow>
   nonblank (tl ls) = nonblank (tl ms) \<Longrightarrow> nonblank ls = nonblank ms"
  by (cases ls; cases ms) auto

lemma replace_run_fields:
  "hd (fields LF (replace_scan s [LF, LF, LF] [LF, LF])) = hd (fields LF s) \<and>
   nonblank (tl (fields LF (replace_scan s [LF, LF, LF] [LF, LF]))) = nonblank (tl (fields LF s))"
proof (induction s "[LF, LF, LF]" "[LF, LF]" rule: replace_scan.induct)
  case 1
  then show ?case by simp
next
  case (2 x xs)
  show ?case
  proof (cases "strings_HasPrefix (x # xs) [LF, LF, LF]")
    case True
    then obtain r where r: "x # xs = [LF, LF, LF] @ r" by (auto simp: HasPrefix_iff)
    then have dr: "drop (length [LF, LF, LF]) (x # xs) = r" by simp
    have R: "replace_scan (x # xs) [LF, LF, LF] [LF, LF]
               = [LF, LF] @ replace_scan r [LF, LF, LF] [LF, LF]"
      using replace_scan_hit [OF _ True, of "[LF, LF]"] dr by simp
    from 2(1) True dr have IH:
      "hd (fields LF (replace_scan r [LF, LF, LF] [LF, LF])) = hd (fields LF r)"
      "nonblank (tl (fields LF (replace_scan r [LF, LF, LF] [LF, LF]))) = nonblank (tl (fields LF r))"
      by simp_all
    have "nonblank (fields LF (replace_scan r [LF, LF, LF] [LF, LF])) = nonblank (fields LF r)"
      using IH by (rule_tac nonblank_hd_tl) simp_all
    then show ?thesis unfolding R by (simp add: r)
  next
    case False
    then have R: "replace_scan (x # xs) [LF, LF, LF] [LF, LF]
                    = x # replace_scan xs [LF, LF, LF] [LF, LF]"
      by (simp add: replace_scan_miss)
    from 2(2) False have IH:
      "hd (fields LF (replace_scan xs [LF, LF, LF] [LF, LF])) = hd (fields LF xs)"
      "nonblank (tl (fields LF (replace_scan xs [LF, LF, LF] [LF, LF]))) = nonblank (tl (fields LF xs))"
      by simp_all
    show ?thesis
    proof (cases "x = LF")
      case True
      have "nonblank (fields LF (replace_scan xs [LF, LF, LF] [LF, LF])) = nonblank (fields LF xs)"
        using IH by (rule_tac nonblank_hd_tl) simp_all
      with True show ?thesis unfolding R by simp
    next
      case False
      with IH show ?thesis unfolding R by simp
    qed
  qed
qed

lemma collapse_fields:
  "hd (fields LF (collapse_blank_lines s)) = hd (fields LF s) \<and>
   nonblank (tl (fields LF (collapse_blank_lines s))) = nonblank (tl (fields LF s))"
proof (induction s rule: collapse_blank_lines.induct)
  case (1 s)
  show ?case
  proof (cases "strings_Contains s [LF, LF, LF]")
    case True
    with 1 replace_run_fields [of s] show ?thesis
      by (simp add: collapse_step strings_ReplaceAll_def)
  next
    case False
    then show ?thesis by (simp add: collapse_stop)
  qed
qed

lemma collapse_nonblank:
  "nonblank (fields LF (collapse_blank_lines s)) = nonblank (fields LF s)"
  using collapse_fields [of s] by (rule_tac nonblank_hd_tl) simp_all

lemma joined_lines_nonblank:
  "nonblank (fields LF (joined_lines s)) = map normalize_bullet (nonblank (fields LF s))"
proof -
  have "nonblank (map normalize_bullet (fields LF (collapse_blank_lines s)))
          = map normalize_bullet (nonblank (fields LF (collapse_blank_lines s)))"
    by (simp add: filter_map comp_def normalize_bullet_empty)
  then show ?thesis by (simp add: fields_joined_lines collapse_nonblank)
qed

lemma TrimPrefix_hit: "strings_HasPrefix l p \<Longrightarrow> strings_TrimPrefix l p = drop (length p) l"
  by (simp add: strings_TrimPrefix_def)

lemma TrimPrefix_miss: "\<not> strings_HasPrefix l p \<Longrightarrow> strings_TrimPrefix l p = l"
  by (simp add: strings_TrimPrefix_def)

lemma HasPrefix_split: "strings_HasPrefix l p \<Longrightarrow> l = p @ drop (length p) l"
  by (metis append_take_drop_id strings_HasPrefix_def)

lemma normalize_bullet_star:
  assumes "strings_HasPrefix l ''* ''"
  shows "normalize_bullet l = ''- '' @ strings_TrimPrefix (drop 2 l) ''- ''"
proof -
  have "strings_TrimPrefix l ''* '' = drop 2 l"
    using TrimPrefix_hit [OF assms] by (simp add: numeral_2_eq_2)
  with assms show ?thesis by (simp only: normalize_bullet_def simp_thms if_True)
qed

lemma normalize_bullet_fixed:
  assumes "\<not> strings_HasPrefix l ''* ''"
  shows "normalize_bullet l = l"
proof (cases "strings_HasPrefix l ''- ''")
  case True
  have l: "l = ''- '' @ drop 2 l"
    using HasPrefix_split [OF True] by (simp add: numeral_2_eq_2)
  have "strings_TrimPrefix (strings_TrimPrefix l ''* '') ''- '' = drop 2 l"
    using TrimPrefix_miss [OF assms] TrimPrefix_hit [OF True] by (simp add: numeral_2_eq_2)
  then have "normalize_bullet l = ''- '' @ drop 2 l"
    using True by (simp only: normalize_bullet_def simp_thms if_True)
  with l show ?thesis by simp
next
  case False
  with assms show ?thesis by (simp add: normalize_bullet_def)
qed

lemma normalize_bullet_no_star: "\<not> strings_HasPrefix (normalize_bullet l) ''* ''"
  by (auto simp: normalize_bullet_def strings_HasPrefix_def)

lemma fields_hd_prefix: "\<exists>r. s = hd (fields c s) @ r"
proof (induction s)
  case Nil
  then show ?case by simp
next
  case (Cons x xs)
  then obtain r where "xs = hd (fields c xs) @ r" by blast
  then have "x # xs = (x # hd (fields c xs)) @ r" by simp
  then show ?case by (cases "x = c") auto
qed

lemma fields_tl_append_right:
  assumes "l \<in> set (tl (fields c a))"
  shows "\<exists>m \<in> set (tl (fields c (a @ b))). \<exists>r. m = l @ r"
proof -
  have F: "fields c a = butlast (fields c a) @ [last (fields c a)]" by simp
  have ne: "butlast (fields c a) \<noteq> []"
  proof
    assume "butlast (fields c a) = []"
    with F have "fields c a = [last (fields c a)]" by simp
    then have "tl (fields c a) = []" by (metis list.sel(3))
    with assms show False by simp
  qed
  then have tl1: "tl (fields c a) = tl (butlast (fields c a)) @ [last (fields c a)]"
    by (metis F tl_append2)
  have tl2: "tl (fields c (a @ b)) =
               tl (butlast (fields c a)) @ [last (fields c a) @ hd (fields c b)] @ tl (fields c b)"
    using ne by (simp add: fields_append)
  from assms tl1 consider "l \<in> set (tl (butlast (fields c a)))" | "l = last (fields c a)"
    by auto
  then show ?thesis
  proof cases
    case 1
    then have "l \<in> set (tl (fields c (a @ b)))" by (simp add: tl2)
    moreover have "l = l @ []" by simp
    ultimately show ?thesis by blast
  next
    case 2
    then have "l @ hd (fields c b) \<in> set (tl (fields c (a @ b)))" by (simp add: tl2)
    then show ?thesis by blast
  qed
qed

lemma fields_tl_append_left: "set (tl (fields c b)) \<subseteq> set (fields c (a @ b))"
  by (auto simp: fields_append)

lemma fields_tl_infix:
  assumes "l \<in> set (tl (fields c s))"
  shows "\<exists>m \<in> set (fields c (p @ s @ q)). \<exists>r. m = l @ r"
proof -
  from fields_tl_append_right [OF assms, of q] obtain m r where
    "m \<in> set (tl (fields c (s @ q)))" "m = l @ r" by blast
  with fields_tl_append_left [of c "s @ q" p] show ?thesis by blast
qed


section \<open>Lemmas: the argument parser\<close>






lemma parse_loop_Cons:
  assumes "parse_loop c (arg # rest) = Parsed c'"
  obtains c1 rest1 where "parse_step c arg rest = Next c1 rest1"
    and "parse_loop c1 rest1 = Parsed c'"
  using assms by (auto split: loop_step.splits)







lemma parse_step_after_submit:
  "parse_step c ''--after-submit'' (u # rest) = Next (c\<lparr>AfterSubmitURL := ensureProtocol u\<rparr>) rest"
  by (simp add: parse_step_def)

lemma ensureProtocol_has: "has_protocol (ensureProtocol u)"
  by (simp add: ensureProtocol_def has_protocol_def strings_HasPrefix_def)

lemma parse_step_after:
  "parse_step c arg rest = Next c' rest' \<Longrightarrow>
   AfterSubmitURL c' = AfterSubmitURL c \<or> has_protocol (AfterSubmitURL c')"
  by (auto simp: parse_step_def ensureProtocol_has split: if_splits list.splits option.splits)

lemma parse_loop_after:
  "parse_loop c args = Parsed c' \<Longrightarrow>
   AfterSubmitURL c' = AfterSubmitURL c \<or> has_protocol (AfterSubmitURL c')"
proof (induction c args rule: parse_loop.induct)
  case (1 config)
  then show ?case by simp
next
  case (2 config arg rest)
  from "2.prems"(1) obtain c1 rest1 where
    st: "parse_step config arg rest = Next c1 rest1" and lp: "parse_loop c1 rest1 = Parsed c'"
    by (auto split: loop_step.splits)
  from "2.IH" [OF st lp] parse_step_after [OF st] show ?case by auto
qed

lemma parse_step_limit_positive:
  "parse_step c arg rest = Next c' rest' \<Longrightarrow> 0 < TruncateAfter c \<Longrightarrow> 0 < TruncateAfter c'"
  by (auto simp: parse_step_def split: if_splits list.splits option.splits)

lemma parse_loop_limit_positive:
  "parse_loop c args = Parsed c' \<Longrightarrow> 0 < TruncateAfter c \<Longrightarrow> 0 < TruncateAfter c'"
proof (induction c args rule: parse_loop.induct)
  case (1 config)
  then show ?case by simp
next
  case (2 config arg rest)
  from "2.prems"(1) obtain c1 rest1 where
    st: "parse_step config arg rest = Next c1 rest1" and lp: "parse_loop c1 rest1 = Parsed c'"
    by (rule parse_loop_Cons)
  from parse_step_limit_positive [OF st "2.prems"(2)] "2.IH" [OF st lp] show ?case by simp
qed

lemma parseArgs_limit_positive: "parseArgs args = Parsed config \<Longrightarrow> 0 < TruncateAfter config"
  using parse_loop_limit_positive [of initial_config args config]
  by (simp add: parseArgs_def initial_config_def)


lemma banner_line_26: "banner_line = replicate 26 (CHR ''='')"
  by code_simp

lemma no_flag:
  assumes "\<not> strings_HasPrefix url ''--''"
  shows "url \<noteq> ''--help''" "url \<noteq> ''--quickstart''" "url \<noteq> ''--raw''"
    "url \<noteq> ''--truncate-after''" "url \<noteq> ''--screenshot''" "url \<noteq> ''--form''"
    "url \<noteq> ''--input''" "url \<noteq> ''--value''" "url \<noteq> ''--after-submit''"
    "url \<noteq> ''--js''" "url \<noteq> ''--profile''" "url \<noteq> ''--headful''"
    "url \<noteq> ''--window-size''" "url \<noteq> ''--session''" "url \<noteq> ''--stop''"
    "url \<noteq> ''--stealth''"
  using assms by (auto simp: strings_HasPrefix_def)

lemma parseArgs_url_only:
  assumes "url \<noteq> []" "\<not> strings_HasPrefix url ''--''"
  shows "parseArgs [url] = Parsed (initial_config\<lparr>URL := url\<rparr>)"
proof -
  have "parse_step initial_config url [] = Next (initial_config\<lparr>URL := url\<rparr>) []"
    using assms(2) no_flag [OF assms(2)] by (simp add: parse_step_def initial_config_def)
  then show ?thesis by (simp add: parseArgs_def)
qed




section \<open>Lemmas: the run of a request\<close>

lemma perform_form_free:
  "perform drv a st = (r, st1) \<Longrightarrow> form_free st \<Longrightarrow> \<not> form_event (Did a) \<Longrightarrow> form_free st1"
  by (auto simp: perform_def form_free_def split: prod.splits)

lemma snd_perform_form_free:
  "form_free st \<Longrightarrow> \<not> form_event (Did a) \<Longrightarrow> form_free (snd (perform drv a st))"
  by (auto simp: perform_def form_free_def split: prod.splits)

lemma emit_form_free: "form_free st \<Longrightarrow> \<not> form_event e \<Longrightarrow> form_free (emit e st)"
  by (auto simp: emit_def form_free_def)

lemma connect_browser_form_free:
  "connect_browser drv config st = (err, st1) \<Longrightarrow> form_free st \<Longrightarrow> form_free st1"
  unfolding connect_browser_def
  by (auto simp: perform_def emit_def form_free_def
      split: if_splits prod.splits sum.splits reply.splits option.splits)

lemma stealth_step_form_free: "form_free st \<Longrightarrow> form_free (stealth_step drv config st)"
  unfolding stealth_step_def
  by (auto simp: perform_def emit_def form_free_def
      split: if_splits prod.splits option.splits)

lemma load_page_form_free:
  "load_page drv u st = (err, st1) \<Longrightarrow> form_free st \<Longrightarrow> form_free st1"
  unfolding load_page_def
  by (auto simp: perform_def emit_def form_free_def
      split: if_splits prod.splits option.splits)

lemma detect_liveview_form_free:
  "detect_liveview drv st = (lv, st1) \<Longrightarrow> form_free st \<Longrightarrow> form_free st1"
  unfolding detect_liveview_def Let_def
  by (auto simp: perform_def emit_def form_free_def
      split: if_splits prod.splits option.splits)

lemma js_step_form_free: "form_free st \<Longrightarrow> form_free (js_step drv config lv st)"
  unfolding js_step_def Let_def
  by (auto simp: perform_def emit_def form_free_def
      split: if_splits prod.splits option.splits)

lemma screenshot_step_form_free:
  "screenshot_step drv config st = (err, st1) \<Longrightarrow> form_free st \<Longrightarrow> form_free st1"
  unfolding screenshot_step_def
  by (auto simp: perform_def emit_def form_free_def
      split: if_splits prod.splits option.splits reply.splits)

lemma after_submit_step_form_free:
  "after_submit_step drv config st = (err, st1) \<Longrightarrow> form_free st \<Longrightarrow> form_free st1"
  unfolding after_submit_step_def
  by (auto simp: perform_def emit_def form_free_def
      split: if_splits prod.splits option.splits)

lemma render_page_form_free:
  "render_page drv config u st = (res, st1) \<Longrightarrow> form_free st \<Longrightarrow> form_free st1"
  unfolding render_page_def
  by (auto simp: perform_def emit_def form_free_def
      split: if_splits prod.splits option.splits reply.splits)

lemma form_step_skipped:
  "FormID config = [] \<or> Inputs config = [] \<Longrightarrow> form_step drv config lv st = (None, st)"
  by (auto simp: form_step_def)

lemma processRequest_form_free:
  assumes skip: "FormID config = [] \<or> Inputs config = []"
    and run: "processRequest drv config st = (res, st')"
    and free: "form_free st"
  shows "form_free st'"
proof -
  obtain e1 st1 where c: "connect_browser drv config st = (e1, st1)" by (rule prod.exhaust)
  have f1: "form_free st1" using connect_browser_form_free [OF c free] .
  show ?thesis
  proof (cases e1)
    case (Some e)
    with run c f1 show ?thesis by (simp add: processRequest_def)
  next
    case None
    note n1 = None
    define sa where "sa = stealth_step drv config st1"
    have fa: "form_free sa" unfolding sa_def using f1 by (rule stealth_step_form_free)
    obtain e2 st2 where l: "load_page drv (ensureProtocol (URL config)) sa = (e2, st2)" by (rule prod.exhaust)
    have f2: "form_free st2" using load_page_form_free [OF l fa] .
    show ?thesis
    proof (cases e2)
      case (Some e)
      with run c n1 l f2 show ?thesis by (simp add: processRequest_def sa_def)
    next
      case None
      note n2 = None
      obtain lv st3 where d: "detect_liveview drv st2 = (lv, st3)" by (rule prod.exhaust)
      have f3: "form_free st3" using detect_liveview_form_free [OF d f2] .
      have fs: "form_step drv config lv st3 = (None, st3)" using skip by (rule form_step_skipped)
      define sj where "sj = js_step drv config lv st3"
      have fj: "form_free sj" unfolding sj_def using f3 by (rule js_step_form_free)
      obtain e5 st5 where s: "screenshot_step drv config sj = (e5, st5)" by (rule prod.exhaust)
      have f5: "form_free st5" using screenshot_step_form_free [OF s fj] .
      show ?thesis
      proof (cases e5)
        case (Some e)
        with run c n1 l n2 d fs s f5 show ?thesis
          by (simp add: processRequest_def sa_def sj_def)
      next
        case None
        note n5 = None
        obtain e6 st6 where a: "after_submit_step drv config st5 = (e6, st6)" by (rule prod.exhaust)
        have f6: "form_free st6" using after_submit_step_form_free [OF a f5] .
        show ?thesis
        proof (cases e6)
          case (Some e)
          with run c n1 l n2 d fs s n5 a f6 show ?thesis
            by (simp add: processRequest_def sa_def sj_def)
        next
          case None
          with run c n1 l n2 d fs s n5 a have
            "render_page drv config (ensureProtocol (URL config)) st6 = (res, st')"
            by (simp add: processRequest_def sa_def sj_def)
          from render_page_form_free [OF this f6] show ?thesis .
        qed
      qed
    qed
  qed
qed

lemma render_page_output:
  assumes "render_page drv config baseURL st = (Returned out, st')" and "\<not> RawFlag config"
  shows "\<exists>text markdown msgs. truncate_markdown config text (cleanMarkdown text) = Some markdown
           \<and> out = page_header baseURL markdown @ console_section msgs"
  using assms unfolding render_page_def
  by (auto split: prod.splits reply.splits option.splits if_splits)

lemma processRequest_returned:
  assumes run: "processRequest drv config st = (Returned out, st')"
  obtains st6 where
    "render_page drv config (ensureProtocol (URL config)) st6 = (Returned out, st')"
proof -
  obtain e1 st1 where c: "connect_browser drv config st = (e1, st1)" by (rule prod.exhaust)
  obtain e2 st2 where
    l: "load_page drv (ensureProtocol (URL config)) (stealth_step drv config st1) = (e2, st2)"
    by (rule prod.exhaust)
  obtain lv st3 where d: "detect_liveview drv st2 = (lv, st3)" by (rule prod.exhaust)
  obtain e4 st4 where f: "form_step drv config lv st3 = (e4, st4)" by (rule prod.exhaust)
  obtain e5 st5 where
    s: "screenshot_step drv config (js_step drv config lv st4) = (e5, st5)"
    by (rule prod.exhaust)
  obtain e6 st6 where a: "after_submit_step drv config st5 = (e6, st6)" by (rule prod.exhaust)
  from run c have n1: "e1 = None" by (cases e1) (simp_all add: processRequest_def)
  from run c n1 l have n2: "e2 = None" by (cases e2) (simp_all add: processRequest_def)
  from run c n1 l n2 d f have n4: "e4 = None"
    by (cases e4) (simp_all add: processRequest_def)
  from run c n1 l n2 d f n4 s have n5: "e5 = None"
    by (cases e5) (simp_all add: processRequest_def)
  from run c n1 l n2 d f n4 s n5 a have n6: "e6 = None"
    by (cases e6) (simp_all add: processRequest_def)
  from run c n1 l n2 d f n4 s n5 a n6 have
    "render_page drv config (ensureProtocol (URL config)) st6 = (Returned out, st')"
    by (simp add: processRequest_def)
  then show ?thesis by (rule that)
qed

lemma processRequest_output:
  assumes run: "processRequest drv config st = (Returned out, st')" and raw: "\<not> RawFlag config"
  shows "\<exists>text markdown msgs. truncate_markdown config text (cleanMarkdown text) = Some markdown
           \<and> out = page_header (ensureProtocol (URL config)) markdown @ console_section msgs"
proof -
  from run obtain st6 where
    "render_page drv config (ensureProtocol (URL config)) st6 = (Returned out, st')"
    by (rule processRequest_returned)
  from render_page_output [OF this raw] show ?thesis .
qed

section \<open>The claims\<close>



text \<open>
  Claim C5. A window-size string that is not two integers (as \<open>strconv.Atoi\<close> reads
  them) with a single \<open>x\<close> between them gives width 1280 and height 720.
\<close>

theorem parseWindowSize_default:
  assumes "\<not> (\<exists>a b w h. sz = a @ ''x'' @ b \<and>
               strconv_Atoi a = Some w \<and> strconv_Atoi b = Some h)"
  shows "parseWindowSize sz = (1280, 720)"
proof (rule ccontr)
  assume neq: "parseWindowSize sz \<noteq> (1280, 720)"
  define parts where "parts = strings_Split sz ''x''"
  from neq have len: "length parts = 2"
    by (auto simp: parseWindowSize_def parts_def Let_def split: if_splits)
  then obtain a b where ab: "parts = [a, b]"
    by (metis (no_types, opaque_lifting) One_nat_def Suc_1 length_0_conv length_Suc_conv)
  from neq len ab obtain w h where "strconv_Atoi a = Some w" "strconv_Atoi b = Some h"
    by (auto simp: parseWindowSize_def parts_def [symmetric] Let_def split: option.splits)
  moreover have "sz = a @ ''x'' @ b"
    using Join_Split [of sz "CHR ''x''"] ab by (simp add: parts_def [symmetric])
  ultimately show False using assms by blast
qed

lemma bogus_is_no_size:
  "\<not> (\<exists>a b w h. ''bogus'' = a @ ''x'' @ b \<and>
         strconv_Atoi a = Some w \<and> strconv_Atoi b = Some h)"
proof
  assume "\<exists>a b w h. ''bogus'' = a @ ''x'' @ b \<and>
            strconv_Atoi a = Some w \<and> strconv_Atoi b = Some h"
  then obtain a b where "''bogus'' = a @ ''x'' @ b" by blast
  then have "set ''bogus'' = set (a @ ''x'' @ b)" by simp
  then have "CHR ''x'' \<in> set ''bogus''" by simp
  then show False by simp
qed

theorem parseWindowSize_default_witness:
  "\<not> (\<exists>a b w h. ''bogus'' = a @ ''x'' @ b \<and>
         strconv_Atoi a = Some w \<and> strconv_Atoi b = Some h)
   \<and> parseWindowSize ''bogus'' = (1280, 720)"
  using parseWindowSize_default [OF bogus_is_no_size] bogus_is_no_size by simp

text \<open>
  Claim C2, as amended. Cleaning is not idempotent: the bullets are normalised before
  the text is trimmed, so a \<open>*\<close> bullet that only the trim brings to the start of the
  text (\<open> * a\<close> becomes \<open>* a\<close>) is rewritten by a second run (\<open>- a\<close>). What holds:
  whenever the cleaned text does not start with \<open>* \<close>, cleaning it again leaves it
  unchanged.
\<close>

theorem cleanMarkdown_idempotent_unless_star:
  assumes "\<not> strings_HasPrefix (cleanMarkdown s) ''* ''"
  shows "cleanMarkdown (cleanMarkdown s) = cleanMarkdown s"
proof -
  define out where "out = cleanMarkdown s"
  obtain p q where j: "joined_lines s = p @ out @ q"
    using TrimSpace_is_infix [of "joined_lines s"] by (auto simp: cleanMarkdown_def out_def)
  have fixed: "normalize_bullet l = l" if "l \<in> set (fields LF out)" for l
  proof (rule normalize_bullet_fixed)
    show "\<not> strings_HasPrefix l ''* ''"
    proof
      assume star: "strings_HasPrefix l ''* ''"
      from that have "l = hd (fields LF out) \<or> l \<in> set (tl (fields LF out))"
        by (metis fields_nonempty list.collapse set_ConsD)
      then show False
      proof
        assume "l = hd (fields LF out)"
        with fields_hd_prefix [of out LF] obtain r where "out = l @ r" by blast
        with star assms show False by (metis HasPrefix_append out_def)
      next
        assume "l \<in> set (tl (fields LF out))"
        from fields_tl_infix [OF this, of p q] j obtain m r where
          m: "m \<in> set (fields LF (joined_lines s))" and "m = l @ r" by auto
        with star have "strings_HasPrefix m ''* ''" by (simp add: HasPrefix_append)
        moreover from m obtain l0 where "m = normalize_bullet l0"
          by (auto simp: fields_joined_lines)
        ultimately show False by (simp add: normalize_bullet_no_star)
      qed
    qed
  qed
  have "collapse_blank_lines out = out"
    by (simp add: collapse_stop out_def cleanMarkdown_no_run)
  then have "joined_lines out = strings_Join (map normalize_bullet (fields LF out)) [LF]"
    by (simp add: joined_lines_eq)
  also have "map normalize_bullet (fields LF out) = fields LF out"
    using fixed by (simp add: map_idI)
  finally have "joined_lines out = out" by (simp add: Join_fields)
  then have "cleanMarkdown out = strings_TrimSpace out" by (simp add: cleanMarkdown_def)
  also have "\<dots> = out" by (simp add: out_def cleanMarkdown_def TrimSpace_idem)
  finally show ?thesis by (simp add: out_def)
qed

theorem cleanMarkdown_idempotent_witness:
  "\<not> strings_HasPrefix
        (cleanMarkdown (''  # T'' @ [LF, LF, LF, LF] @ ''* a'' @ [LF] @ ''- b  '')) ''* '' \<and>
   cleanMarkdown (cleanMarkdown (''  # T'' @ [LF, LF, LF, LF] @ ''* a'' @ [LF] @ ''- b  ''))
     = cleanMarkdown (''  # T'' @ [LF, LF, LF, LF] @ ''* a'' @ [LF] @ ''- b  '')"
proof -
  have h: "\<not> strings_HasPrefix
        (cleanMarkdown (''  # T'' @ [LF, LF, LF, LF] @ ''* a'' @ [LF] @ ''- b  '')) ''* ''"
    by code_simp
  from cleanMarkdown_idempotent_unless_star [OF h] h show ?thesis by simp
qed

theorem cleanMarkdown_not_idempotent:
  "cleanMarkdown '' * a'' = ''* a'' \<and> cleanMarkdown (cleanMarkdown '' * a'') = ''- a'' \<and>
   cleanMarkdown (cleanMarkdown '' * a'') \<noteq> cleanMarkdown '' * a''"
proof -
  have "cleanMarkdown '' * a'' = ''* a''" by code_simp
  moreover have "cleanMarkdown (cleanMarkdown '' * a'') = ''- a''" by code_simp
  ultimately show ?thesis by simp
qed

text \<open>
  Claim C3, as amended. The cleaned text never contains three newlines in a row. The
  lines of the input that are not empty are, in the same order, the non-empty lines of
  the text that the final trim receives, each rewritten by the bullet step; a line that
  starts with \<open>* \<close> is rewritten to \<open>- \<close> followed by the rest of the line, less one
  leading \<open>- \<close> of that rest. The characters after the marker are not touched otherwise,
  so the marker is followed by exactly one space only when that rest does not begin with
  a space (\<open>*  a\<close> becomes \<open>-  a\<close>). The final trim removes white space only, at the two
  ends of the text.
\<close>

theorem cleanMarkdown_blank_runs_and_bullets:
  "\<not> strings_Contains (cleanMarkdown s) [LF, LF, LF] \<and>
   nonblank (strings_Split (joined_lines s) [LF])
     = map normalize_bullet (nonblank (strings_Split s [LF])) \<and>
   (\<forall>l. strings_HasPrefix l ''* '' \<longrightarrow>
      normalize_bullet l = ''- '' @ strings_TrimPrefix (drop 2 l) ''- '') \<and>
   (\<exists>p q. joined_lines s = p @ cleanMarkdown s @ q \<and>
      trim_left space_encodings p = [] \<and> trim_right space_encodings q = [])"
proof (intro conjI allI impI)
  show "\<not> strings_Contains (cleanMarkdown s) [LF, LF, LF]"
    by (rule cleanMarkdown_no_run)
  show "nonblank (strings_Split (joined_lines s) [LF])
          = map normalize_bullet (nonblank (strings_Split s [LF]))"
    by (simp add: Split_fields joined_lines_nonblank)
  show "normalize_bullet l = ''- '' @ strings_TrimPrefix (drop 2 l) ''- ''"
    if "strings_HasPrefix l ''* ''" for l
    using that by (rule normalize_bullet_star)
  show "\<exists>p q. joined_lines s = p @ cleanMarkdown s @ q \<and>
          trim_left space_encodings p = [] \<and> trim_right space_encodings q = []"
    unfolding cleanMarkdown_def by (rule TrimSpace_removed)
qed

theorem cleanMarkdown_blank_runs_and_bullets_witness:
  "strings_HasPrefix ''* a'' ''* '' \<and>
   normalize_bullet ''* a'' = ''- a'' \<and>
   \<not> strings_Contains
        (cleanMarkdown (''  # T'' @ [LF, LF, LF, LF] @ ''* a'' @ [LF] @ ''- b  ''))
        [LF, LF, LF] \<and>
   nonblank (strings_Split
               (joined_lines (''  # T'' @ [LF, LF, LF, LF] @ ''* a'' @ [LF] @ ''- b  '')) [LF])
     = [''  # T'', ''- a'', ''- b  '']"
proof -
  have h: "strings_HasPrefix ''* a'' ''* ''" by code_simp
  have e: "''- '' @ strings_TrimPrefix (drop 2 ''* a'') ''- '' = ''- a''" by code_simp
  have n: "map normalize_bullet
             (nonblank (strings_Split
                (''  # T'' @ [LF, LF, LF, LF] @ ''* a'' @ [LF] @ ''- b  '') [LF]))
           = [''  # T'', ''- a'', ''- b  '']"
    by code_simp
  note t = cleanMarkdown_blank_runs_and_bullets
    [of "''  # T'' @ [LF, LF, LF, LF] @ ''* a'' @ [LF] @ ''- b  ''"]
  from t h have "normalize_bullet ''* a'' = ''- '' @ strings_TrimPrefix (drop 2 ''* a'') ''- ''"
    by blast
  with e have b: "normalize_bullet ''* a'' = ''- a''" by simp
  from t n have l: "nonblank (strings_Split
               (joined_lines (''  # T'' @ [LF, LF, LF, LF] @ ''* a'' @ [LF] @ ''- b  '')) [LF])
     = [''  # T'', ''- a'', ''- b  '']"
    by simp
  from t have "\<not> strings_Contains
        (cleanMarkdown (''  # T'' @ [LF, LF, LF, LF] @ ''* a'' @ [LF] @ ''- b  ''))
        [LF, LF, LF]"
    by blast
  with h b l show ?thesis by blast
qed

text \<open>
  The claim as the specification states it fails at the one-line text \<open>*  a\<close>: it is a
  \<open>*\<close> bullet line, and the cleaned text is the single line \<open>-  a\<close>, with two spaces
  after the marker. It fails as well at the text \<open>* \<close>, a bullet line with nothing after
  the marker: the final trim takes the space, and the cleaned text is \<open>-\<close>.
\<close>

theorem cleanMarkdown_bullet_two_spaces:
  "strings_HasPrefix ''*  a'' ''* '' \<and>
   strings_Split ''*  a'' [LF] = [''*  a''] \<and>
   strings_Split (cleanMarkdown ''*  a'') [LF] = [''-  a''] \<and>
   \<not> dash_bullet_one_space ''-  a'' \<and>
   strings_HasPrefix ''* '' ''* '' \<and>
   strings_Split ''* '' [LF] = [''* ''] \<and>
   strings_Split (cleanMarkdown ''* '') [LF] = [''-''] \<and>
   \<not> dash_bullet_one_space ''-''"
  by code_simp



text \<open>
  Claim C1, as amended. For a configuration that \<open>parseArgs\<close> returns (its limit is
  positive) and a converted text whose cleaned form is longer than the limit, the
  truncation gives the first \<open>limit\<close> bytes of the cleaned text followed by the notice, so
  its length is the limit plus the length of the notice. The notice states the limit
  and, as the length of the full content, the length of the converted text before the
  cleanup (\<open>len(text)\<close>), which is the length of the cleaned text only when the cleanup
  did not change the length.
\<close>

theorem truncation_length_and_notice:
  assumes "parseArgs args = Parsed config"
    and "TruncateAfter config < int (length (cleanMarkdown text))"
  shows "\<exists>out. truncate_markdown config text (cleanMarkdown text) = Some out \<and>
           out = take (nat (TruncateAfter config)) (cleanMarkdown text)
                 @ truncation_notice (TruncateAfter config) (int (length text)) \<and>
           int (length out) = TruncateAfter config
             + int (length (truncation_notice (TruncateAfter config) (int (length text))))"
proof -
  from assms(1) have "0 < TruncateAfter config" by (rule parseArgs_limit_positive)
  with assms(2) show ?thesis
    by (simp add: truncate_markdown_def slice_to_def)
qed

theorem truncation_length_and_notice_witness:
  "parseArgs [''example.com'', ''--truncate-after'', ''1'']
     = Parsed (initial_config\<lparr>URL := ''example.com'', TruncateAfter := 1\<rparr>) \<and>
   1 < int (length (cleanMarkdown ''* - ab'')) \<and>
   truncate_markdown (initial_config\<lparr>URL := ''example.com'', TruncateAfter := 1\<rparr>)
       ''* - ab'' (cleanMarkdown ''* - ab'')
     = Some (''-'' @ truncation_notice 1 6)"
proof -
  let ?cfg = "initial_config\<lparr>URL := ''example.com'', TruncateAfter := 1\<rparr>"
  have p: "parseArgs [''example.com'', ''--truncate-after'', ''1''] = Parsed ?cfg"
    by code_simp
  have t: "TruncateAfter ?cfg = 1" by simp
  have h: "TruncateAfter ?cfg < int (length (cleanMarkdown ''* - ab''))"
    unfolding t by code_simp
  have k: "take (nat 1) (cleanMarkdown ''* - ab'') = ''-''" by code_simp
  have l: "int (length ''* - ab'') = 6" by simp
  from truncation_length_and_notice [OF p h]
  have "truncate_markdown ?cfg ''* - ab'' (cleanMarkdown ''* - ab'')
          = Some (''-'' @ truncation_notice 1 6)"
    unfolding t k l by blast
  with p h show ?thesis unfolding t by blast
qed

text \<open>
  The claim as the specification states it fails for the converted text \<open>* - ab\<close> (6
  bytes), whose cleaned form is \<open>- ab\<close> (4 bytes), at the limit 1: the notice states 6,
  not 4.
\<close>

theorem truncation_notice_states_converted_length:
  "parseArgs [''example.com'', ''--truncate-after'', ''1'']
     = Parsed (initial_config\<lparr>URL := ''example.com'', TruncateAfter := 1\<rparr>) \<and>
   cleanMarkdown ''* - ab'' = ''- ab'' \<and>
   truncate_markdown (initial_config\<lparr>URL := ''example.com'', TruncateAfter := 1\<rparr>)
       ''* - ab'' (cleanMarkdown ''* - ab'')
     = Some (''-'' @ truncation_notice 1 6) \<and>
   ''-'' @ truncation_notice 1 6
     \<noteq> ''-'' @ truncation_notice 1 (int (length (cleanMarkdown ''* - ab''))) \<and>
   truncation_notice 1 6
     = [LF, LF] @ ''... (output truncated after 1 chars, full content was 6 chars)''"
  by code_simp

text \<open>
  Claim C7, as amended. When the program is called with one token, a URL (not empty,
  not starting with \<open>--\<close>), and ends with status 0, the last thing it wrote is the
  assembled output on the standard output: a line of 26 \<open>=\<close>, the URL after
  \<open>ensureProtocol\<close> (the URL itself when it starts with \<open>http://\<close> or \<open>https://\<close>, otherwise
  \<open>http://\<close> and the URL), a second line of 26 \<open>=\<close>, a blank line, and the body.
\<close>

theorem url_only_output_header:
  assumes "url \<noteq> []" and "\<not> strings_HasPrefix url ''--''" and "main drv [url] w = (0, st)"
  shows "(\<exists>events body.
            snd st = events @ [Stdout (banner_line @ [LF] @ ensureProtocol url @ [LF]
                                       @ banner_line @ [LF, LF] @ body @ [LF])]) \<and>
         banner_line = replicate 26 (CHR ''='') \<and>
         ensureProtocol url = (if has_protocol url then url else ''http://'' @ url)"
proof (intro conjI)
  let ?config = "initial_config\<lparr>URL := url\<rparr>"
  have p: "parseArgs [url] = Parsed ?config" using assms(1,2) by (rule parseArgs_url_only)
  have c: "\<not> StopSession ?config" "URL ?config = url" "\<not> RawFlag ?config"
    by (simp_all add: initial_config_def)
  obtain r st0 where e: "perform drv EnsureChromium (w, []) = (r, st0)" by (rule prod.exhaust)
  obtain res st1 where pr: "processRequest drv ?config st0 = (res, st1)" by (rule prod.exhaust)
  from assms(1,3) p c e have ok: "reply_error r = None"
    by (cases "reply_error r") (simp_all add: main_def)
  from assms(1,3) p c e ok pr obtain out where res: "res = Returned out"
    and st: "st = emit (Stdout (out @ [LF])) st1"
    by (cases res) (simp_all add: main_def)
  from pr res have "processRequest drv ?config st0 = (Returned out, st1)" by simp
  from processRequest_output [OF this c(3)] obtain converted markdown msgs where
    "out = page_header (ensureProtocol url) markdown @ console_section msgs"
    unfolding c(2) by blast
  then have "snd st = snd st1 @ [Stdout (banner_line @ [LF] @ ensureProtocol url @ [LF]
                 @ banner_line @ [LF, LF] @ (markdown @ console_section msgs) @ [LF])]"
    by (simp add: st emit_def page_header_def)
  then show "\<exists>events body.
            snd st = events @ [Stdout (banner_line @ [LF] @ ensureProtocol url @ [LF]
                                       @ banner_line @ [LF, LF] @ body @ [LF])]"
    by blast
  show "banner_line = replicate 26 (CHR ''='')" by (rule banner_line_26)
  show "ensureProtocol url = (if has_protocol url then url else ''http://'' @ url)"
    by (simp add: ensureProtocol_def has_protocol_def)
qed

theorem url_only_output_header_witness:
  "''https://example.com'' \<noteq> [] \<and> \<not> strings_HasPrefix ''https://example.com'' ''--'' \<and>
   fst (main demo_driver [''https://example.com''] ()) = 0 \<and>
   (\<exists>events body.
      snd (snd (main demo_driver [''https://example.com''] ()))
        = events @ [Stdout (banner_line @ [LF] @ ''https://example.com'' @ [LF]
                            @ banner_line @ [LF, LF] @ body @ [LF])])"
proof -
  have a: "''https://example.com'' \<noteq> []" by simp
  have b: "\<not> strings_HasPrefix ''https://example.com'' ''--''" by code_simp
  have s: "fst (main demo_driver [''https://example.com''] ()) = 0" by code_simp
  then have m: "main demo_driver [''https://example.com''] ()
                  = (0, snd (main demo_driver [''https://example.com''] ()))"
    by (metis prod.collapse)
  have e: "ensureProtocol ''https://example.com'' = ''https://example.com''" by code_simp
  from url_only_output_header [OF a b m] a b s show ?thesis unfolding e by blast
qed

text \<open>
  The claim as the specification states it fails for the URL \<open>example.com\<close>: the line
  between the two banner lines is \<open>http://example.com\<close>, not the URL as given.
\<close>

theorem url_only_header_not_verbatim:
  "fst (main demo_driver [''example.com''] ()) = 0 \<and>
   last (snd (snd (main demo_driver [''example.com''] ())))
     = Stdout (banner_line @ [LF] @ ''http://example.com'' @ [LF] @ banner_line
               @ [LF, LF] @ ''hello'' @ [LF]) \<and>
   \<not> strings_HasPrefix
        (banner_line @ [LF] @ ''http://example.com'' @ [LF] @ banner_line
         @ [LF, LF] @ ''hello'' @ [LF])
        (banner_line @ [LF] @ ''example.com'' @ [LF] @ banner_line)"
  by code_simp




text \<open>
  Claim C9. \<open>ensureProtocol\<close> puts \<open>http://\<close> before a URL exactly when the URL starts
  with neither \<open>http://\<close> nor \<open>https://\<close>; its result always starts with one of the two,
  and applying it twice is applying it once. The output of a request (not raw) starts
  with the header of the normalised target URL, and the parser stores the value of
  \<open>--after-submit\<close> normalised, so that the post-submit URL of a parsed configuration is
  empty (not given) or starts with one of the two prefixes.
\<close>

theorem ensureProtocol_normalises:
  "ensureProtocol u = (if has_protocol u then u else ''http://'' @ u) \<and>
   has_protocol (ensureProtocol u) \<and>
   ensureProtocol (ensureProtocol u) = ensureProtocol u \<and>
   (\<forall>out st'. processRequest drv config st = (Returned out, st') \<and> \<not> RawFlag config \<longrightarrow>
      strings_HasPrefix out
        (banner_line @ [LF] @ ensureProtocol (URL config) @ [LF] @ banner_line @ [LF, LF])) \<and>
   parse_step c ''--after-submit'' (v # rest)
     = Next (c\<lparr>AfterSubmitURL := ensureProtocol v\<rparr>) rest \<and>
   (\<forall>cfg. parseArgs args = Parsed cfg \<longrightarrow>
      AfterSubmitURL cfg = [] \<or> has_protocol (AfterSubmitURL cfg))"
proof (intro conjI allI impI)
  show "ensureProtocol u = (if has_protocol u then u else ''http://'' @ u)"
    by (simp add: ensureProtocol_def has_protocol_def)
  show "has_protocol (ensureProtocol u)" by (rule ensureProtocol_has)
  show "ensureProtocol (ensureProtocol u) = ensureProtocol u"
    by (simp add: ensureProtocol_def strings_HasPrefix_def)
  show "strings_HasPrefix out
          (banner_line @ [LF] @ ensureProtocol (URL config) @ [LF] @ banner_line @ [LF, LF])"
    if "processRequest drv config st = (Returned out, st') \<and> \<not> RawFlag config" for out st'
  proof -
    from that processRequest_output [of drv config st out st'] obtain markdown msgs where
      "out = page_header (ensureProtocol (URL config)) markdown @ console_section msgs"
      by blast
    then show ?thesis by (simp add: HasPrefix_iff page_header_def)
  qed
  show "parse_step c ''--after-submit'' (v # rest)
          = Next (c\<lparr>AfterSubmitURL := ensureProtocol v\<rparr>) rest"
    by (rule parse_step_after_submit)
  show "AfterSubmitURL cfg = [] \<or> has_protocol (AfterSubmitURL cfg)"
    if "parseArgs args = Parsed cfg" for cfg
    using that parse_loop_after [of initial_config args cfg]
    by (simp add: parseArgs_def initial_config_def)
qed

theorem ensureProtocol_normalises_witness:
  "ensureProtocol ''example.com'' = ''http://example.com'' \<and>
   ensureProtocol ''https://example.com'' = ''https://example.com'' \<and>
   fst (processRequest demo_driver (initial_config\<lparr>URL := ''example.com''\<rparr>) ((), []))
     = Returned (banner_line @ [LF] @ ''http://example.com'' @ [LF] @ banner_line
                 @ [LF, LF] @ ''hello'') \<and>
   strings_HasPrefix
     (banner_line @ [LF] @ ''http://example.com'' @ [LF] @ banner_line @ [LF, LF] @ ''hello'')
     (banner_line @ [LF] @ ensureProtocol (URL (initial_config\<lparr>URL := ''example.com''\<rparr>))
      @ [LF] @ banner_line @ [LF, LF]) \<and>
   parseArgs [''example.com'', ''--after-submit'', ''example.org/done'']
     = Parsed (initial_config\<lparr>URL := ''example.com'',
                 AfterSubmitURL := ''http://example.org/done''\<rparr>) \<and>
   has_protocol ''http://example.org/done''"
proof -
  let ?cfg = "initial_config\<lparr>URL := ''example.com''\<rparr>"
  let ?out = "banner_line @ [LF] @ ''http://example.com'' @ [LF] @ banner_line
                 @ [LF, LF] @ ''hello''"
  have r: "fst (processRequest demo_driver ?cfg ((), [])) = Returned ?out" by code_simp
  then have run: "processRequest demo_driver ?cfg ((), [])
                    = (Returned ?out, snd (processRequest demo_driver ?cfg ((), [])))"
    by (metis prod.collapse)
  have raw: "\<not> RawFlag ?cfg" by (simp add: initial_config_def)
  have p: "parseArgs [''example.com'', ''--after-submit'', ''example.org/done'']
     = Parsed (initial_config\<lparr>URL := ''example.com'',
                 AfterSubmitURL := ''http://example.org/done''\<rparr>)"
    by code_simp
  note t = ensureProtocol_normalises
    [of _ demo_driver ?cfg "((), [])" _ _ _
        "[''example.com'', ''--after-submit'', ''example.org/done'']"]
  from t run raw have h: "strings_HasPrefix ?out
     (banner_line @ [LF] @ ensureProtocol (URL ?cfg) @ [LF] @ banner_line @ [LF, LF])"
    by blast
  from t p have "AfterSubmitURL (initial_config\<lparr>URL := ''example.com'',
                 AfterSubmitURL := ''http://example.org/done''\<rparr>) = [] \<or>
     has_protocol (AfterSubmitURL (initial_config\<lparr>URL := ''example.com'',
                 AfterSubmitURL := ''http://example.org/done''\<rparr>))"
    by blast
  then have a: "has_protocol ''http://example.org/done''" by simp
  have e1: "ensureProtocol ''example.com'' = ''http://example.com''" by code_simp
  have e2: "ensureProtocol ''https://example.com'' = ''https://example.com''" by code_simp
  from e1 e2 r h p a show ?thesis by blast
qed

text \<open>
  Claim C10. The form step of a request calls \<open>handleForm\<close> only when the form id is not
  empty and there is at least one Form Input. With a form id and no Form Input, or with
  Form Inputs and no form id, the step does nothing: it performs no action, writes
  nothing and returns no error, so the request goes on from the same state; and no
  clearing, typing or clicking happens anywhere in the request. When both are given, the
  step is \<open>handleForm\<close>, whose error stops the request.
\<close>

theorem form_step_needs_id_and_inputs:
  "(FormID config = [] \<or> Inputs config = [] \<longrightarrow> form_step drv config lv st = (None, st)) \<and>
   (FormID config = [] \<or> Inputs config = [] \<longrightarrow> form_free st \<longrightarrow>
      form_free (snd (processRequest drv config st))) \<and>
   (FormID config \<noteq> [] \<and> Inputs config \<noteq> [] \<longrightarrow>
      form_step drv config lv st =
        (case handleForm drv config lv st of
           (Some e, st1) \<Rightarrow> (Some (''error handling form: '' @ e), st1)
         | (None, st1) \<Rightarrow> (None, st1)))"
proof (intro conjI impI)
  show "form_step drv config lv st = (None, st)" if "FormID config = [] \<or> Inputs config = []"
    using that by (rule form_step_skipped)
  show "form_free (snd (processRequest drv config st))"
    if "FormID config = [] \<or> Inputs config = []" and "form_free st"
    using processRequest_form_free [OF that(1) _ that(2)] by (metis prod.collapse)
  show "form_step drv config lv st =
        (case handleForm drv config lv st of
           (Some e, st1) \<Rightarrow> (Some (''error handling form: '' @ e), st1)
         | (None, st1) \<Rightarrow> (None, st1))"
    if "FormID config \<noteq> [] \<and> Inputs config \<noteq> []"
    using that by (simp add: form_step_def)
qed

theorem form_step_needs_id_and_inputs_witness:
  "form_step demo_driver (initial_config\<lparr>URL := ''example.com'', FormID := ''login''\<rparr>)
     False ((), [])
     = (None, ((), [])) \<and>
   form_free (snd (processRequest demo_driver
        (initial_config\<lparr>URL := ''example.com'', FormID := ''login''\<rparr>) ((), []))) \<and>
   form_free (snd (processRequest demo_driver
        (initial_config\<lparr>URL := ''example.com'',
           Inputs := [\<lparr>Name = ''user'', Value = ''ann''\<rparr>]\<rparr>) ((), []))) \<and>
   \<not> form_free (snd (processRequest demo_driver
        (initial_config\<lparr>URL := ''example.com'', FormID := ''login'',
           Inputs := [\<lparr>Name = ''user'', Value = ''ann''\<rparr>]\<rparr>) ((), [])))"
proof -
  let ?c1 = "initial_config\<lparr>URL := ''example.com'', FormID := ''login''\<rparr>"
  let ?c2 = "initial_config\<lparr>URL := ''example.com'',
               Inputs := [\<lparr>Name = ''user'', Value = ''ann''\<rparr>]\<rparr>"
  have i1: "FormID ?c1 = [] \<or> Inputs ?c1 = []" by (simp add: initial_config_def)
  have i2: "FormID ?c2 = [] \<or> Inputs ?c2 = []" by (simp add: initial_config_def)
  have f0: "form_free (((), []) :: unit run)" by (simp add: form_free_def)
  note t1 = form_step_needs_id_and_inputs [of ?c1 demo_driver False "((), [])"]
  note t2 = form_step_needs_id_and_inputs [of ?c2 demo_driver False "((), [])"]
  from t1 i1 have a: "form_step demo_driver ?c1 False ((), []) = (None, ((), []))" by blast
  from t1 i1 f0 have b: "form_free (snd (processRequest demo_driver ?c1 ((), [])))" by blast
  from t2 i2 f0 have c: "form_free (snd (processRequest demo_driver ?c2 ((), [])))" by blast
  have d: "\<not> form_free (snd (processRequest demo_driver
        (initial_config\<lparr>URL := ''example.com'', FormID := ''login'',
           Inputs := [\<lparr>Name = ''user'', Value = ''ann''\<rparr>]\<rparr>) ((), [])))"
    by code_simp
  from a b c d show ?thesis by blast
qed

section \<open>Further properties\<close>

lemma parse_step_url_kept:
  "parse_step c arg rest = Next c' rest' \<Longrightarrow> URL c \<noteq> [] \<Longrightarrow> URL c' = URL c"
  by (auto simp: parse_step_def split: if_splits list.splits option.splits)

lemma parse_loop_url_kept:
  "parse_loop c args = Parsed c' \<Longrightarrow> URL c \<noteq> [] \<Longrightarrow> URL c' = URL c"
proof (induction c args rule: parse_loop.induct)
  case (1 config)
  then show ?case by simp
next
  case (2 config arg rest)
  from "2.prems"(1) obtain c1 rest1 where
    st: "parse_step config arg rest = Next c1 rest1" and lp: "parse_loop c1 rest1 = Parsed c'"
    by (rule parse_loop_Cons)
  from parse_step_url_kept [OF st "2.prems"(2)] "2.IH" [OF st lp] "2.prems"(2)
  show ?case by simp
qed

lemma TrimPrefix_length: "length (strings_TrimPrefix s p) \<le> length s"
  by (simp add: strings_TrimPrefix_def)

lemma normalize_bullet_length: "length (normalize_bullet l) \<le> length l"
proof (cases "strings_HasPrefix l ''* ''")
  case True
  have "length (strings_TrimPrefix (drop 2 l) ''- '') \<le> length (drop 2 l)"
    by (rule TrimPrefix_length)
  moreover from True have "2 \<le> length l" using HasPrefix_length by fastforce
  ultimately show ?thesis by (simp add: normalize_bullet_star [OF True])
next
  case False
  then show ?thesis by (simp add: normalize_bullet_fixed)
qed

lemma Join_length_mono:
  "length (strings_Join (map normalize_bullet ls) sep) \<le> length (strings_Join ls sep)"
proof (induction ls sep rule: strings_Join.induct)
  case (1 sep)
  then show ?case by simp
next
  case (2 x sep)
  then show ?case by (simp add: normalize_bullet_length)
next
  case (3 x y ys sep)
  with normalize_bullet_length [of x] show ?case by simp
qed

lemma collapse_length: "length (collapse_blank_lines s) \<le> length s"
proof (induction s rule: collapse_blank_lines.induct)
  case (1 s)
  show ?case
  proof (cases "strings_Contains s [LF, LF, LF]")
    case True
    have "length (replace_scan s [LF, LF, LF] [LF, LF]) \<le> length s"
      by (rule replace_scan_length_le) simp
    with 1 True show ?thesis by (simp add: collapse_step strings_ReplaceAll_def)
  next
    case False
    then show ?thesis by (simp add: collapse_stop)
  qed
qed

lemma joined_lines_length: "length (joined_lines s) \<le> length s"
proof -
  have "length (joined_lines s)
          \<le> length (strings_Join (fields LF (collapse_blank_lines s)) [LF])"
    unfolding joined_lines_eq by (rule Join_length_mono)
  also have "\<dots> = length (collapse_blank_lines s)" by (simp add: Join_fields)
  also have "\<dots> \<le> length s" by (rule collapse_length)
  finally show ?thesis .
qed

lemma TrimSpace_length: "length (strings_TrimSpace s) \<le> length s"
proof -
  obtain p q where "s = p @ strings_TrimSpace s @ q" using TrimSpace_is_infix by blast
  then have "length s = length p + length (strings_TrimSpace s) + length q"
    by (metis length_append add.assoc)
  then show ?thesis by simp
qed

text \<open>
  The limit of a parsed configuration is positive, whatever the tokens (the invariant of
  the specification's data model).
\<close>

theorem parsed_limit_positive:
  "parseArgs args = Parsed config \<Longrightarrow> 0 < TruncateAfter config"
  using parse_loop_limit_positive [of initial_config args config]
  by (simp add: parseArgs_def initial_config_def)

theorem parsed_limit_positive_witness:
  "parseArgs [''example.com'', ''--truncate-after'', ''0'', ''--truncate-after'', ''7'']
     = Parsed (initial_config\<lparr>URL := ''example.com'', TruncateAfter := 7\<rparr>) \<and>
   0 < TruncateAfter (initial_config\<lparr>URL := ''example.com'', TruncateAfter := 7\<rparr>)"
proof -
  have p: "parseArgs [''example.com'', ''--truncate-after'', ''0'', ''--truncate-after'', ''7'']
     = Parsed (initial_config\<lparr>URL := ''example.com'', TruncateAfter := 7\<rparr>)"
    by code_simp
  from parsed_limit_positive [OF p] p show ?thesis by blast
qed

text \<open>
  The target URL is the first token that is read as an argument and does not start with
  \<open>--\<close>: once it is set, no later token changes it.
\<close>

theorem first_url_is_kept:
  "parse_loop c args = Parsed c' \<Longrightarrow> URL c \<noteq> [] \<Longrightarrow> URL c' = URL c"
  by (rule parse_loop_url_kept)

theorem first_url_is_kept_witness:
  "parse_loop (initial_config\<lparr>URL := ''a.example''\<rparr>) [''b.example'', ''--raw'']
     = Parsed (initial_config\<lparr>URL := ''a.example'', RawFlag := True\<rparr>) \<and>
   URL (initial_config\<lparr>URL := ''a.example''\<rparr>) \<noteq> [] \<and>
   URL (initial_config\<lparr>URL := ''a.example'', RawFlag := True\<rparr>)
     = URL (initial_config\<lparr>URL := ''a.example''\<rparr>)"
proof -
  have p: "parse_loop (initial_config\<lparr>URL := ''a.example''\<rparr>) [''b.example'', ''--raw'']
     = Parsed (initial_config\<lparr>URL := ''a.example'', RawFlag := True\<rparr>)"
    by code_simp
  have n: "URL (initial_config\<lparr>URL := ''a.example''\<rparr>) \<noteq> []" by simp
  from first_url_is_kept [OF p n] p n show ?thesis by blast
qed

text \<open>
  Without a URL and without \<open>--stop\<close> the program prints the help text and ends with
  status 1, and does nothing else.
\<close>

theorem no_url_prints_help:
  "parseArgs args = Parsed config \<Longrightarrow> \<not> StopSession config \<Longrightarrow> URL config = [] \<Longrightarrow>
   main drv args w = (1, (w, [PrintedHelp]))"
  by (simp add: main_def)

theorem no_url_prints_help_witness:
  "parseArgs [''--raw''] = Parsed (initial_config\<lparr>RawFlag := True\<rparr>) \<and>
   \<not> StopSession (initial_config\<lparr>RawFlag := True\<rparr>) \<and>
   URL (initial_config\<lparr>RawFlag := True\<rparr>) = [] \<and>
   main demo_driver [''--raw''] () = (1, ((), [PrintedHelp]))"
proof -
  have p: "parseArgs [''--raw''] = Parsed (initial_config\<lparr>RawFlag := True\<rparr>)" by code_simp
  have s: "\<not> StopSession (initial_config\<lparr>RawFlag := True\<rparr>)"
    by (simp add: initial_config_def)
  have u: "URL (initial_config\<lparr>RawFlag := True\<rparr>) = []" by (simp add: initial_config_def)
  from no_url_prints_help [OF p s u, of demo_driver "()"] p s u show ?thesis by blast
qed

text \<open>
  The cleaned text has no white space at its ends, and it is never longer than the text
  it was made from: the length that the truncation notice states is at least the length
  of the cleaned text.
\<close>

theorem cleanMarkdown_trimmed_and_not_longer:
  "strings_TrimSpace (cleanMarkdown s) = cleanMarkdown s \<and>
   length (cleanMarkdown s) \<le> length s"
proof
  show "strings_TrimSpace (cleanMarkdown s) = cleanMarkdown s"
    by (simp add: cleanMarkdown_def TrimSpace_idem)
  have "length (cleanMarkdown s) \<le> length (joined_lines s)"
    unfolding cleanMarkdown_def by (rule TrimSpace_length)
  also have "\<dots> \<le> length s" by (rule joined_lines_length)
  finally show "length (cleanMarkdown s) \<le> length s" .
qed

text \<open>
  With \<open>--raw\<close> the result of a request is the markup of the page as the browser gave
  it, with no header; nothing is converted.
\<close>

theorem raw_output_is_page_markup:
  "processRequest drv config st = (Returned out, st') \<Longrightarrow> RawFlag config \<Longrightarrow>
   last (snd st') = Did (OuterHTML ''html'') \<and>
   (\<exists>w. fst (drv (OuterHTML ''html'') w) = Text out)"
proof -
  assume run: "processRequest drv config st = (Returned out, st')" and raw: "RawFlag config"
  from run obtain st6 where
    r: "render_page drv config (ensureProtocol (URL config)) st6 = (Returned out, st')"
    by (rule processRequest_returned)
  obtain rp w1 where d: "drv (OuterHTML ''html'') (fst st6) = (rp, w1)" by (rule prod.exhaust)
  from r raw d have "rp = Text out \<and> st' = (w1, snd st6 @ [Did (OuterHTML ''html'')])"
    by (cases rp) (simp_all add: render_page_def perform_def)
  with d show ?thesis by (metis fst_conv last_snoc snd_conv)
qed

theorem raw_output_is_page_markup_witness:
  "RawFlag (initial_config\<lparr>URL := ''example.com'', RawFlag := True\<rparr>) \<and>
   fst (processRequest demo_driver
          (initial_config\<lparr>URL := ''example.com'', RawFlag := True\<rparr>) ((), []))
     = Returned ''<html><body>hello</body></html>'' \<and>
   last (snd (snd (processRequest demo_driver
          (initial_config\<lparr>URL := ''example.com'', RawFlag := True\<rparr>) ((), []))))
     = Did (OuterHTML ''html'')"
proof -
  let ?cfg = "initial_config\<lparr>URL := ''example.com'', RawFlag := True\<rparr>"
  have raw: "RawFlag ?cfg" by simp
  have r: "fst (processRequest demo_driver ?cfg ((), []))
             = Returned ''<html><body>hello</body></html>''"
    by code_simp
  then have run: "processRequest demo_driver ?cfg ((), [])
     = (Returned ''<html><body>hello</body></html>'',
        snd (processRequest demo_driver ?cfg ((), [])))"
    by (metis prod.collapse)
  from raw_output_is_page_markup [OF run raw] raw r show ?thesis by blast
qed

end
